theory Spec2Isabelle
  imports Main "HOL-Library.Char_ord" "HOL-Library.List_Lexorder" "HOL-Library.Multiset"
begin

section \<open>Strings\<close>

text \<open>
  Go strings are byte sequences; they are modelled as \<^typ>\<open>string\<close>, ordered
  bytewise and lexicographically as Go's \<^verbatim>\<open>sort.Strings\<close> orders them.
  The helpers of package \<^verbatim>\<open>strings\<close> are modelled on ASCII text:
  \<^verbatim>\<open>ToLower\<close> maps \<^verbatim>\<open>A..Z\<close> to \<^verbatim>\<open>a..z\<close> and leaves every other
  byte alone, and white space is the six ASCII white space bytes.
\<close>

definition isSpace :: "char \<Rightarrow> bool" where
  "isSpace c = (c = CHR 0x09 \<or> c = CHR 0x0A \<or> c = CHR 0x0B \<or> c = CHR 0x0C
                \<or> c = CHR 0x0D \<or> c = CHR 0x20)"

definition lowerChar :: "char \<Rightarrow> char" where
  "lowerChar c =
     (if (65::nat) \<le> of_char c \<and> of_char c \<le> (90::nat)
      then char_of (of_char c + (32::nat)) else c)"

definition toLower :: "string \<Rightarrow> string" where
  "toLower s = map lowerChar s"

definition trimSpace :: "string \<Rightarrow> string" where
  "trimSpace s = rev (dropWhile isSpace (rev (dropWhile isSpace s)))"

definition hasPrefix :: "string \<Rightarrow> string \<Rightarrow> bool" where
  "hasPrefix s p = (take (length p) s = p)"

fun contains :: "string \<Rightarrow> string \<Rightarrow> bool" where
  "contains [] sub = (sub = [])"
| "contains (c # cs) sub = (hasPrefix (c # cs) sub \<or> contains cs sub)"

text \<open>\<^verbatim>\<open>func normKey(s string) string { return strings.ToLower(strings.TrimSpace(s)) }\<close>\<close>

definition normKey :: "string \<Rightarrow> string" where
  "normKey s = toLower (trimSpace s)"

section \<open>Composition pattern codes\<close>

text \<open>
  \<^verbatim>\<open>parsePattern\<close> reads its code with \<^verbatim>\<open>fmt.Sscanf(c, "%d%s", &n, &suf)\<close>.
  Package \<^verbatim>\<open>fmt\<close> is Go's library; the two verbs are modelled as the library
  documents and implements them for this format:
  \<^item> before each verb white space is skipped, and a newline met while skipping is an
    error (\<^verbatim>\<open>Sscanf\<close> does not treat newlines as space);
  \<^item> \<^verbatim>\<open>%d\<close> accepts an optional sign, then at least one character of
    \<^verbatim>\<open>0123456789_\<close>, as many as follow; the token goes to
    \<^verbatim>\<open>strconv.ParseInt(tok, 10, 64)\<close>, which rejects an underscore in base 10
    and a value outside the signed 64-bit range;
  \<^item> \<^verbatim>\<open>%s\<close> fails at the end of the input, and otherwise takes the characters
    up to the next white space;
  \<^item> input left over after the last verb is ignored.
\<close>

fun skipSpace :: "string \<Rightarrow> string option" where
  "skipSpace [] = Some []"
| "skipSpace (c # cs) =
     (if c = CHR 0x0A then None
      else if isSpace c then skipSpace cs
      else Some (c # cs))"

definition isDigit :: "char \<Rightarrow> bool" where
  "isDigit c = ((48::nat) \<le> of_char c \<and> of_char c \<le> (57::nat))"

definition isNumberChar :: "char \<Rightarrow> bool" where
  "isNumberChar c = (isDigit c \<or> c = CHR ''_'')"

definition digitsValue :: "string \<Rightarrow> int" where
  "digitsValue ds = foldl (\<lambda>a c. 10 * a + (int (of_char c) - 48)) 0 ds"

definition parseInt64 :: "bool \<Rightarrow> string \<Rightarrow> int option" where
  "parseInt64 neg ds =
     (if ds = [] \<or> \<not> list_all isDigit ds then None
      else let v = (if neg then - digitsValue ds else digitsValue ds)
           in if v < - (2 ^ 63) \<or> 2 ^ 63 - 1 < v then None else Some v)"

definition scanInt :: "string \<Rightarrow> (int \<times> string) option" where
  "scanInt s =
     (case skipSpace s of
        None \<Rightarrow> None
      | Some [] \<Rightarrow> None
      | Some (c # cs) \<Rightarrow>
          (let neg = (c = CHR ''-'');
               body = (if c = CHR ''+'' \<or> c = CHR ''-'' then cs else c # cs);
               tok = takeWhile isNumberChar body;
               rest = dropWhile isNumberChar body
           in if tok = [] then None
              else (case parseInt64 neg tok of
                      None \<Rightarrow> None
                    | Some v \<Rightarrow> Some (v, rest))))"

definition scanWord :: "string \<Rightarrow> (string \<times> string) option" where
  "scanWord s =
     (case skipSpace s of
        None \<Rightarrow> None
      | Some [] \<Rightarrow> None
      | Some (c # cs) \<Rightarrow>
          Some (takeWhile (\<lambda>x. \<not> isSpace x) (c # cs), dropWhile (\<lambda>x. \<not> isSpace x) (c # cs)))"

text \<open>\<^verbatim>\<open>fmt.Sscanf(c, "%d%s", &n, &suf)\<close>: \<open>None\<close> is a non-nil error.\<close>

definition sscanf_d_s :: "string \<Rightarrow> (int \<times> string) option" where
  "sscanf_d_s s =
     (case scanInt s of
        None \<Rightarrow> None
      | Some (n, rest) \<Rightarrow>
          (case scanWord rest of
             None \<Rightarrow> None
           | Some (suf, _) \<Rightarrow> Some (n, suf)))"

text \<open>The three error returns of \<^verbatim>\<open>parsePattern\<close>, each with the value its message prints.\<close>

datatype pattern_error =
    InvalidCode string       \<comment> \<open>\<^verbatim>\<open>kode '%s' tidak valid\<close>\<close>
  | OutOfRange int           \<comment> \<open>\<^verbatim>\<open>jumlah '%d' di luar batas 1..4\<close>\<close>
  | UnknownCode string       \<comment> \<open>\<^verbatim>\<open>kode '%s' tidak dikenali\<close>\<close>

definition parsePattern :: "string \<Rightarrow> pattern_error + (int \<times> int \<times> int)" where
  "parsePattern code =
     (let c = toLower (trimSpace code) in
      if length c < 2 then Inl (InvalidCode code)
      else (case sscanf_d_s c of
              None \<Rightarrow> Inl (InvalidCode code)
            | Some (n, suf) \<Rightarrow>
                if n < 1 \<or> n > 4 then Inl (OutOfRange n)
                else if n = 1 then
                  (if suf = ''a'' then Inr (1, 0, 1)
                   else if suf = ''b'' then Inr (0, 1, 1)
                   else Inl (UnknownCode code))
                else if n = 2 then
                  (if suf = ''a'' then Inr (1, 1, 2)
                   else if suf = ''b'' then Inr (2, 0, 2)
                   else if suf = ''c'' then Inr (0, 2, 2)
                   else Inl (UnknownCode code))
                else if n = 3 then
                  (if suf = ''a'' then Inr (1, 2, 3)
                   else if suf = ''b'' then Inr (2, 1, 3)
                   else if suf = ''c'' then Inr (3, 0, 3)
                   else if suf = ''d'' then Inr (0, 3, 3)
                   else Inl (UnknownCode code))
                else
                  (if suf = ''a'' then Inr (1, 3, 4)
                   else if suf = ''b'' then Inr (2, 2, 4)
                   else if suf = ''c'' then Inr (3, 1, 4)
                   else if suf = ''d'' then Inr (4, 0, 4)
                   else if suf = ''e'' then Inr (0, 4, 4)
                   else Inl (UnknownCode code))))"

text \<open>
  The enumeration as the specification words it: code, then (elder, member, total).
\<close>

definition spec_pattern_table :: "(string \<times> (int \<times> int \<times> int)) list" where
  "spec_pattern_table =
     [(''1a'', (1, 0, 1)), (''1b'', (0, 1, 1)),
      (''2a'', (1, 1, 2)), (''2b'', (2, 0, 2)), (''2c'', (0, 2, 2)),
      (''3a'', (1, 2, 3)), (''3b'', (2, 1, 3)), (''3c'', (3, 0, 3)), (''3d'', (0, 3, 3)),
      (''4a'', (1, 3, 4)), (''4b'', (2, 2, 4)), (''4c'', (3, 1, 4)), (''4d'', (4, 0, 4)),
      (''4e'', (0, 4, 4))]"

section \<open>Data model\<close>

text \<open>
  \<^verbatim>\<open>type RoleMap struct { Role, SourceColumn, Service string; Slots07, Slots10 int }\<close>
  and \<^verbatim>\<open>type Person struct { Name string; IsPenatua bool; Marks map[string]bool }\<close>.
\<close>

record RoleMap =
  Role :: string
  SourceColumn :: string
  Service :: string
  Slots07 :: int
  Slots10 :: int

record Person =
  Name :: string
  IsPenatua :: bool
  Marks :: "string \<rightharpoonup> bool"

text \<open>
  \<^verbatim>\<open>time.Time\<close>, as far as the engine looks at it: the instant, in nanoseconds since
  the zero time (January 1 of year 1, 00:00 UTC), and the offset of the value's location
  east of UTC in seconds. \<^verbatim>\<open>IsZero\<close> asks for the zero instant. \<^verbatim>\<open>sameDay\<close> compares
  the civil year, month and day of \<^verbatim>\<open>Date()\<close>; the calendar numbers the local days
  one to one, so it compares the numbers of the local days.
\<close>

record time =
  instant :: int
  zoneOffset :: int

definition zeroTime :: time where
  "zeroTime = \<lparr>instant = 0, zoneOffset = 0\<rparr>"

definition IsZero :: "time \<Rightarrow> bool" where
  "IsZero t = (instant t = 0)"

definition localDay :: "time \<Rightarrow> int" where
  "localDay t = (instant t + zoneOffset t * 1000000000) div (86400 * 1000000000)"

definition sameDay :: "time \<Rightarrow> time \<Rightarrow> bool" where
  "sameDay a b = (localDay a = localDay b)"

text \<open>
  \<^verbatim>\<open>type Assignment = map[time.Time]map[string]map[string][]string\<close>: date, service,
  role, names. The engine allocates an inner map before it writes into it and nothing
  reads whether an inner map is absent or empty, so both outer levels are total functions
  whose default is the empty map.
\<close>

type_synonym Assignment = "time \<Rightarrow> string \<Rightarrow> (string \<rightharpoonup> string list)"

definition emptyAssignment :: Assignment where
  "emptyAssignment = (\<lambda>d svc. Map.empty)"

definition setRole :: "time \<Rightarrow> string \<Rightarrow> string \<Rightarrow> string list \<Rightarrow> Assignment \<Rightarrow> Assignment" where
  "setRole d svc role names a = a(d := (a d)(svc := (a d svc)(role \<mapsto> names)))"

section \<open>Ambient state: flags, random source, map iteration\<close>

text \<open>
  What the engine reads from outside its arguments:
  \<^item> \<open>draw g n\<close> is one bounded draw of the process-wide \<^verbatim>\<open>math/rand\<close> source in
    state \<open>g\<close> (\<^verbatim>\<open>int31n\<close>, \<^verbatim>\<open>Int63n\<close>): a number and the next state. The
    generator is Go's library and stays a parameter; its contract \<open>0 \<le> j < n\<close> is
    imposed where the draw is used, by reducing modulo \<open>n\<close>.
  \<^item> \<open>mapOrder\<close> is the order in which \<^verbatim>\<open>for n := range m\<close> visits the keys of a
    map, which Go leaves unspecified: it is given the keys in insertion order and
    returns them in visiting order.
  \<^item> the flags \<^verbatim>\<open>*strictCompositionFlag\<close> and \<^verbatim>\<open>*noRelaxB2BFlag\<close>.
  Output printed under \<^verbatim>\<open>verbose\<close> changes no state and is left out.
\<close>

record 'g env =
  draw :: "'g \<Rightarrow> nat \<Rightarrow> nat \<times> 'g"
  mapOrder :: "string list \<Rightarrow> string list"
  strictComposition :: bool
  noRelaxB2B :: bool

text \<open>
  What a \<^verbatim>\<open>range\<close> over a map does whatever its order: it visits every key once.
\<close>

definition visitsEachKeyOnce :: "(string list \<Rightarrow> string list) \<Rightarrow> bool" where
  "visitsEachKeyOnce order = (\<forall>keys. distinct keys \<longrightarrow> mset (order keys) = mset keys)"

text \<open>
  Two runs of the same process image on the same flags and the same random source, which
  may differ in the order their map iterations take.
\<close>

definition sameRun :: "'g env \<Rightarrow> 'g env \<Rightarrow> bool" where
  "sameRun env env' =
     (draw env = draw env' \<and> strictComposition env = strictComposition env'
      \<and> noRelaxB2B env = noRelaxB2B env'
      \<and> visitsEachKeyOnce (mapOrder env) \<and> visitsEachKeyOnce (mapOrder env'))"

text \<open>
  \<^verbatim>\<open>rand.Shuffle(n, swap)\<close>: for \<open>i\<close> from \<open>n - 1\<close> down to 1, draw \<open>j\<close> below
  \<open>i + 1\<close> and swap the elements at \<open>i\<close> and \<open>j\<close>.
\<close>

definition swap :: "'a list \<Rightarrow> nat \<Rightarrow> nat \<Rightarrow> 'a list" where
  "swap xs i j = xs[i := xs ! j, j := xs ! i]"

fun shuffleFrom :: "('g \<Rightarrow> nat \<Rightarrow> nat \<times> 'g) \<Rightarrow> nat \<Rightarrow> 'a list \<Rightarrow> 'g \<Rightarrow> 'a list \<times> 'g" where
  "shuffleFrom dr 0 xs g = (xs, g)"
| "shuffleFrom dr (Suc i) xs g =
     (case dr g (Suc (Suc i)) of
        (j, g') \<Rightarrow> shuffleFrom dr i (swap xs (Suc i) (j mod Suc (Suc i))) g')"

definition shuffle :: "('g \<Rightarrow> nat \<Rightarrow> nat \<times> 'g) \<Rightarrow> 'a list \<Rightarrow> 'g \<Rightarrow> 'a list \<times> 'g" where
  "shuffle dr xs g = shuffleFrom dr (length xs - 1) xs g"

text \<open>Go's \<^verbatim>\<open>int\<close> is 64 bits wide here and \<^verbatim>\<open>+\<close> wraps around.\<close>

definition wrap64 :: "int \<Rightarrow> int" where
  "wrap64 x = (x + 2 ^ 63) mod 2 ^ 64 - 2 ^ 63"

section \<open>Eligibility index\<close>

definition eligible :: "Person \<Rightarrow> string \<Rightarrow> bool" where
  \<comment> \<open>\<^verbatim>\<open>if mark, ok := p.Marks[key]; ok && mark\<close>\<close>
  "eligible p key = (Marks p key = Some True)"

definition filterCandidates ::
  "(string list \<Rightarrow> string list) \<Rightarrow> Person list \<Rightarrow> string \<Rightarrow> bool \<Rightarrow> string list" where
  "filterCandidates order people src mustPenatua =
     (let key = normKey src;
          m = remdups (map Name
                (filter (\<lambda>p. \<not> (mustPenatua \<and> \<not> IsPenatua p) \<and> eligible p key) people))
      in sort (order m))"

definition filterCandidatesSplit :: "Person list \<Rightarrow> string \<Rightarrow> string list \<times> string list" where
  "filterCandidatesSplit people src =
     (let key = normKey src
      in (map Name (filter (\<lambda>p. eligible p key \<and> IsPenatua p) people),
          map Name (filter (\<lambda>p. eligible p key \<and> \<not> IsPenatua p) people)))"

fun uniqFrom :: "string set \<Rightarrow> string list \<Rightarrow> string list" where
  "uniqFrom seen [] = []"
| "uniqFrom seen (s # rest) =
     (if s \<in> seen then uniqFrom seen rest else s # uniqFrom (insert s seen) rest)"

definition uniq :: "string list \<Rightarrow> string list" where
  "uniq xs = sort (uniqFrom {} xs)"

section \<open>Role classifier\<close>

definition baseRole :: "string \<Rightarrow> string" where
  "baseRole role =
     (let r = toLower (trimSpace role) in
      if hasPrefix r ''lektor'' then ''lektor''
      else if hasPrefix r ''prokantor'' then ''prokantor''
      else if hasPrefix r ''pemusik'' then ''pemusik''
      else if hasPrefix r ''kolektan'' then ''kolektan''
      else if contains r ''pjemaat'' \<or> contains r ''p. jemaat'' then ''pjemaat''
      else r)"

definition isMajelisPendamping :: "string \<Rightarrow> bool" where
  "isMajelisPendamping role = (let r = toLower role in contains r ''majel'' \<and> contains r ''pend'')"

definition defaultSlotsForRole :: "string \<Rightarrow> string \<Rightarrow> int \<Rightarrow> int \<Rightarrow> int \<Rightarrow> int" where
  "defaultSlotsForRole role svc maxLektor maxPro maxMus =
     (let low = toLower (trimSpace role) in
      if contains low ''lektor'' then maxLektor
      else if contains low ''prokantor'' then maxPro
      else if contains low ''pemusik'' then maxMus
      else 1)"

definition inService :: "string \<Rightarrow> RoleMap \<Rightarrow> bool" where
  \<comment> \<open>the negation of \<^verbatim>\<open>m.Service != "both" && m.Service != svc\<close>\<close>
  "inService svc m = (\<not> (Service m \<noteq> ''both'' \<and> Service m \<noteq> svc))"

definition groupKeys :: "string list" where
  "groupKeys = [''lektor'', ''prokantor'', ''pemusik'', ''kolektan'', ''pjemaat'']"

text \<open>
  \<^verbatim>\<open>groupMappingsForService\<close> appends each row of the service, in order, to the group of
  its base role or to \<^verbatim>\<open>others\<close>; a group never appended to reads as the empty list.
\<close>

definition groupMappingsForService ::
  "RoleMap list \<Rightarrow> string \<Rightarrow> (string \<Rightarrow> RoleMap list) \<times> RoleMap list" where
  "groupMappingsForService maps svc =
     ((\<lambda>base. if base \<in> set groupKeys
               then filter (\<lambda>m. inService svc m \<and> baseRole (Role m) = base) maps else []),
      filter (\<lambda>m. inService svc m \<and> baseRole (Role m) \<notin> set groupKeys) maps)"

section \<open>Fairness tracker and working sets\<close>

text \<open>
  The state \<^verbatim>\<open>generate\<close> mutates: the Assignment, \<^verbatim>\<open>lastAssigned\<close>, the three
  working sets of the current date (a \<^verbatim>\<open>map[string]bool\<close> that only ever stores
  \<^verbatim>\<open>true\<close> is the set of its keys), and the state of the random source.
\<close>

record 'g state =
  assign :: Assignment
  lastAssigned :: "string \<rightharpoonup> time"
  assigned07 :: "string set"
  assigned10 :: "string set"
  assignedAnyToday :: "string set"
  rng :: 'g

text \<open>
  \<^verbatim>\<open>var prevSunday time.Time; if di > 0 { prevSunday = dates[di-1] }\<close>
\<close>

definition prevSunday :: "time list \<Rightarrow> nat \<Rightarrow> time" where
  "prevSunday dates di = (if di > 0 then dates ! (di - 1) else zeroTime)"

text \<open>The closure \<^verbatim>\<open>prefer\<close> (the name is an Isabelle keyword), over the variables it captures.\<close>

definition preferred :: "time \<Rightarrow> (string \<rightharpoonup> time) \<Rightarrow> string \<Rightarrow> bool" where
  "preferred prev la name =
     (if IsZero prev then True
      else (case la name of
              Some t \<Rightarrow> if sameDay t prev then False else True
            | None \<Rightarrow> True))"

text \<open>
  \<^verbatim>\<open>already\<close> is \<^verbatim>\<open>assigned07\<close> when \<^verbatim>\<open>svc == "07"\<close> and \<^verbatim>\<open>assigned10\<close>
  otherwise; the maps are shared, so a write through \<^verbatim>\<open>already\<close> is a write to
  that set.
\<close>

definition already :: "string \<Rightarrow> 'g state \<Rightarrow> string set" where
  "already svc st = (if svc = ''07'' then assigned07 st else assigned10 st)"

definition setAlready :: "string \<Rightarrow> string set \<Rightarrow> 'g state \<Rightarrow> 'g state" where
  "setAlready svc s st = (if svc = ''07'' then st\<lparr>assigned07 := s\<rparr> else st\<lparr>assigned10 := s\<rparr>)"

text \<open>
  The four statements of a pick outside the composition picker:
  \<^verbatim>\<open>already[name] = true; assignedAnyToday[name] = true; lastAssigned[name] = d\<close>
  (the append to \<^verbatim>\<open>picked\<close> is in the loop).
\<close>

definition markPicked :: "string \<Rightarrow> time \<Rightarrow> string \<Rightarrow> 'g state \<Rightarrow> 'g state" where
  "markPicked svc d name st =
     (setAlready svc (insert name (already svc st)) st)
       \<lparr>assignedAnyToday := insert name (assignedAnyToday st),
        lastAssigned := (lastAssigned st)(name \<mapsto> d)\<rparr>"

section \<open>Capped and generic pickers\<close>

text \<open>
  The pick loops of the escort, capped-role and other-role phases are one loop up to two
  tests. \<open>checkToday\<close> is false only in the escort relax pass, which leaves out
  \<^verbatim>\<open>assignedAnyToday[name]\<close>; \<open>usePrefer\<close> is true in the first pass of each phase
  and false in the relax passes.
  \<^verbatim>\<open>
  for _, name := range cands {
      if len(picked) >= slots { break }
      if already[name] || assignedAnyToday[name] { continue }
      if prefer(name) { picked = append(picked, name); already[name] = true; ... }
  }
  \<close>
\<close>

fun pickLoop ::
  "bool \<Rightarrow> bool \<Rightarrow> time \<Rightarrow> string \<Rightarrow> time \<Rightarrow> int \<Rightarrow> string list
    \<Rightarrow> string list \<times> 'g state \<Rightarrow> string list \<times> 'g state" where
  "pickLoop checkToday usePrefer prev svc d slots [] (picked, st) = (picked, st)"
| "pickLoop checkToday usePrefer prev svc d slots (name # cands) (picked, st) =
     (if slots \<le> int (length picked) then (picked, st)
      else if name \<in> already svc st \<or> (checkToday \<and> name \<in> assignedAnyToday st)
        then pickLoop checkToday usePrefer prev svc d slots cands (picked, st)
      else if usePrefer \<and> \<not> preferred prev (lastAssigned st) name
        then pickLoop checkToday usePrefer prev svc d slots cands (picked, st)
      else pickLoop checkToday usePrefer prev svc d slots cands
             (picked @ [name], markPicked svc d name st))"

text \<open>
  Every phase but the composition phase shuffles a sorted candidate list and runs the
  first pass, then, when the quota is unmet and the phase allows it, the relax pass over
  the same shuffled list: \<open>relax\<close> is true in the escort phase and
  \<^verbatim>\<open>!*noRelaxB2BFlag\<close> in the other two; \<open>relaxToday\<close> says whether the relax
  pass still tests \<^verbatim>\<open>assignedAnyToday\<close> (it does except in the escort phase).
\<close>

definition shuffledCandidates ::
  "'g env \<Rightarrow> Person list \<Rightarrow> string \<Rightarrow> bool \<Rightarrow> 'g state \<Rightarrow> string list \<times> 'g state" where
  "shuffledCandidates env people src mustPenatua st =
     (case shuffle (draw env) (filterCandidates (mapOrder env) people src mustPenatua) (rng st) of
        (cands, g) \<Rightarrow> (cands, st\<lparr>rng := g\<rparr>))"

definition twoPasses ::
  "bool \<Rightarrow> bool \<Rightarrow> time \<Rightarrow> string \<Rightarrow> time \<Rightarrow> int \<Rightarrow> string list \<Rightarrow> 'g state
    \<Rightarrow> string list \<times> 'g state" where
  "twoPasses relax relaxToday prev svc d slots cands st =
     (case pickLoop True True prev svc d slots cands ([], st) of
        (pickedA, st2) \<Rightarrow>
          if relax \<and> int (length pickedA) < slots
          then pickLoop relaxToday False prev svc d slots cands (pickedA, st2)
          else (pickedA, st2))"

text \<open>Phase 1, one escort row (only run with \<^verbatim>\<open>svc == "10"\<close>).\<close>

definition escortSlots :: "RoleMap \<Rightarrow> int" where
  "escortSlots m = (if Slots10 m > 0 then Slots10 m else 1)"

definition escortRow ::
  "'g env \<Rightarrow> Person list \<Rightarrow> time \<Rightarrow> time \<Rightarrow> RoleMap \<Rightarrow> 'g state \<Rightarrow> 'g state" where
  "escortRow env people prev d m st =
     (case shuffledCandidates env people (SourceColumn m) True st of
        (cands, st1) \<Rightarrow>
          (case twoPasses True False prev ''10'' d (escortSlots m) cands st1 of
             (pk, st3) \<Rightarrow> st3\<lparr>assign := setRole d ''10'' (Role m) pk (assign st3)\<rparr>))"

fun escortPhase ::
  "'g env \<Rightarrow> Person list \<Rightarrow> time \<Rightarrow> time \<Rightarrow> RoleMap list \<Rightarrow> 'g state \<Rightarrow> 'g state" where
  "escortPhase env people prev d [] st = st"
| "escortPhase env people prev d (m # ms) st =
     escortPhase env people prev d ms (escortRow env people prev d m st)"

text \<open>Phase 3: one capped group; the rows get the picks in row order.\<close>

fun cappedAssignRows ::
  "time \<Rightarrow> string \<Rightarrow> string list \<Rightarrow> nat \<Rightarrow> RoleMap list \<Rightarrow> Assignment \<Rightarrow> Assignment" where
  "cappedAssignRows d svc pk i [] a = a"
| "cappedAssignRows d svc pk i (rm # rows) a =
     cappedAssignRows d svc pk (Suc i) rows
       (if i < length pk then setRole d svc (Role rm) [pk ! i] a
        else setRole d svc (Role rm) [] a)"

definition cappedLimit :: "int \<Rightarrow> RoleMap list \<Rightarrow> int" where
  "cappedLimit glimit rows = (if glimit > int (length rows) then int (length rows) else glimit)"

definition cappedGroup ::
  "'g env \<Rightarrow> Person list \<Rightarrow> time \<Rightarrow> time \<Rightarrow> string \<Rightarrow> RoleMap list \<Rightarrow> int
    \<Rightarrow> 'g state \<Rightarrow> 'g state" where
  "cappedGroup env people prev d svc rows glimit st =
     (case rows of
        [] \<Rightarrow> st
      | row0 # _ \<Rightarrow>
         (case shuffledCandidates env people (SourceColumn row0) False st of
            (names, st1) \<Rightarrow>
              (case twoPasses (\<not> noRelaxB2B env) True prev svc d (cappedLimit glimit rows) names st1 of
                 (pk, st3) \<Rightarrow>
                   st3\<lparr>assign := cappedAssignRows d svc pk 0 rows (assign st3)\<rparr>)))"

text \<open>Phase 4, one row of the other roles.\<close>

definition otherSlots :: "string \<Rightarrow> int \<Rightarrow> int \<Rightarrow> int \<Rightarrow> RoleMap \<Rightarrow> int" where
  "otherSlots svc maxLektor maxPro maxMus m =
     (let slots0 = defaultSlotsForRole (Role m) svc maxLektor maxPro maxMus;
          slots1 = (if svc = ''07'' \<and> Slots07 m > 0 then Slots07 m else slots0)
      in if svc = ''10'' \<and> Slots10 m > 0 then Slots10 m else slots1)"

definition otherRow ::
  "'g env \<Rightarrow> Person list \<Rightarrow> time \<Rightarrow> time \<Rightarrow> string \<Rightarrow> int \<Rightarrow> int \<Rightarrow> int \<Rightarrow> RoleMap
    \<Rightarrow> 'g state \<Rightarrow> 'g state" where
  "otherRow env people prev d svc maxLektor maxPro maxMus m st =
     (if \<not> inService svc m then st
      else if svc = ''07'' \<and> isMajelisPendamping (Role m) then st
      else
        (case shuffledCandidates env people (SourceColumn m) (isMajelisPendamping (Role m)) st of
           (cands, st1) \<Rightarrow>
             (case twoPasses (\<not> noRelaxB2B env) True prev svc d
                     (otherSlots svc maxLektor maxPro maxMus m) cands st1 of
                (pk, st3) \<Rightarrow> st3\<lparr>assign := setRole d svc (Role m) pk (assign st3)\<rparr>)))"

fun otherPhase ::
  "'g env \<Rightarrow> Person list \<Rightarrow> time \<Rightarrow> time \<Rightarrow> string \<Rightarrow> int \<Rightarrow> int \<Rightarrow> int \<Rightarrow> RoleMap list
    \<Rightarrow> 'g state \<Rightarrow> 'g state" where
  "otherPhase env people prev d svc maxLektor maxPro maxMus [] st = st"
| "otherPhase env people prev d svc maxLektor maxPro maxMus (m # ms) st =
     otherPhase env people prev d svc maxLektor maxPro maxMus ms
       (otherRow env people prev d svc maxLektor maxPro maxMus m st)"

section \<open>Composition picker\<close>

text \<open>
  The variables the closures of \<^verbatim>\<open>pickWithComposition\<close> share: \<^verbatim>\<open>picked\<close>,
  \<^verbatim>\<open>used\<close>, and the two maps of the caller it writes to.
\<close>

record picker =
  picked :: "string list"
  used :: "string set"
  alreadySvc :: "string set"
  anyToday :: "string set"

definition taken :: "picker \<Rightarrow> string \<Rightarrow> bool" where
  \<comment> \<open>\<^verbatim>\<open>used[p.Name] || already[p.Name] || assignedAnyToday[p.Name]\<close>\<close>
  "taken s n = (n \<in> used s \<or> n \<in> alreadySvc s \<or> n \<in> anyToday s)"

definition remaining :: "picker \<Rightarrow> Person list \<Rightarrow> Person list" where
  "remaining s pool = filter (\<lambda>p. \<not> taken s (Name p)) pool"

text \<open>\<^verbatim>\<open>pickFrom(pool, &need, usePrefer, tag)\<close>: returns the new \<^verbatim>\<open>*need\<close> too.\<close>

fun pickFrom ::
  "(string \<Rightarrow> bool) \<Rightarrow> int \<Rightarrow> bool \<Rightarrow> Person list \<Rightarrow> int \<Rightarrow> picker \<Rightarrow> int \<times> picker" where
  "pickFrom pref totalNeed usePrefer [] need s = (need, s)"
| "pickFrom pref totalNeed usePrefer (p # pool) need s =
     (if totalNeed \<le> int (length (picked s)) then (need, s)
      else if need \<le> 0 then (need, s)
      else if taken s (Name p) then pickFrom pref totalNeed usePrefer pool need s
      else if usePrefer \<and> \<not> pref (Name p) then pickFrom pref totalNeed usePrefer pool need s
      else pickFrom pref totalNeed usePrefer pool (need - 1)
             (s\<lparr>picked := picked s @ [Name p],
                used := insert (Name p) (used s),
                alreadySvc := insert (Name p) (alreadySvc s),
                anyToday := insert (Name p) (anyToday s)\<rparr>))"

text \<open>
  Steps A to C. Each step is the elder call then the member call; the state between
  calls is the pair of the two counters \<^verbatim>\<open>needPen\<close>, \<^verbatim>\<open>needJem\<close> and the picker.
  Step A scans the pools themselves and is unguarded; steps B and C scan what
  \<^verbatim>\<open>remaining\<close> leaves of a pool and run only while that pool's counter is positive.
\<close>

definition stepA ::
  "(string \<Rightarrow> bool) \<Rightarrow> int \<Rightarrow> Person list \<Rightarrow> Person list \<Rightarrow> (int \<times> int) \<times> picker
    \<Rightarrow> (int \<times> int) \<times> picker" where
  "stepA pref totalNeed candPen candJem ns =
     (case ns of ((needPen, needJem), s) \<Rightarrow>
        (case pickFrom pref totalNeed True candPen needPen s of
           (needPen', s1) \<Rightarrow>
             (case pickFrom pref totalNeed True candJem needJem s1 of
                (needJem', s2) \<Rightarrow> ((needPen', needJem'), s2))))"

definition stepGuarded ::
  "(string \<Rightarrow> bool) \<Rightarrow> int \<Rightarrow> bool \<Rightarrow> Person list \<Rightarrow> Person list \<Rightarrow> (int \<times> int) \<times> picker
    \<Rightarrow> (int \<times> int) \<times> picker" where
  "stepGuarded pref totalNeed usePrefer candPen candJem ns =
     (case ns of ((needPen, needJem), s) \<Rightarrow>
        (case (if needPen > 0
               then pickFrom pref totalNeed usePrefer (remaining s candPen) needPen s
               else (needPen, s)) of
           (needPen', s1) \<Rightarrow>
             (case (if needJem > 0
                    then pickFrom pref totalNeed usePrefer (remaining s1 candJem) needJem s1
                    else (needJem, s1)) of
                (needJem', s2) \<Rightarrow> ((needPen', needJem'), s2))))"

definition stepsABC ::
  "'g env \<Rightarrow> (string \<Rightarrow> bool) \<Rightarrow> Person list \<Rightarrow> Person list \<Rightarrow> int \<Rightarrow> int \<Rightarrow> picker
    \<Rightarrow> picker" where
  "stepsABC env pref candPen candJem needPen needJem s0 =
     (let totalNeed = wrap64 (needPen + needJem);
          a = stepA pref totalNeed candPen candJem ((needPen, needJem), s0);
          b = stepGuarded pref totalNeed True candPen candJem a;
          c = (if \<not> noRelaxB2B env then stepGuarded pref totalNeed False candPen candJem b else b)
      in snd c)"

text \<open>Step D's list: \<^verbatim>\<open>append(remaining(candPen), remaining(candJem)...)\<close>.\<close>

definition mergedPool :: "picker \<Rightarrow> Person list \<Rightarrow> Person list \<Rightarrow> Person list" where
  "mergedPool s candPen candJem = remaining s candPen @ remaining s candJem"

definition stepD ::
  "'g env \<Rightarrow> (string \<Rightarrow> bool) \<Rightarrow> Person list \<Rightarrow> Person list \<Rightarrow> int \<Rightarrow> picker \<times> 'g
    \<Rightarrow> picker \<times> 'g" where
  "stepD env pref candPen candJem totalNeed sg =
     (case sg of (s, g) \<Rightarrow>
        if \<not> strictComposition env \<and> int (length (picked s)) < totalNeed
        then (let (merged, g') = shuffle (draw env) (mergedPool s candPen candJem) g;
                  extra = totalNeed - int (length (picked s))
              in (snd (pickFrom pref totalNeed False merged extra s), g'))
        else (s, g))"

text \<open>
  \<^verbatim>\<open>pickWithComposition\<close> returns \<^verbatim>\<open>picked\<close>; the model returns the picker, whose
  two sets are what the call leaves in \<^verbatim>\<open>already\<close> and \<^verbatim>\<open>assignedAnyToday\<close>, and
  the state of the random source.
\<close>

definition pickWithComposition ::
  "'g env \<Rightarrow> Person list \<Rightarrow> Person list \<Rightarrow> int \<Rightarrow> int \<Rightarrow> (string \<Rightarrow> bool)
    \<Rightarrow> string set \<Rightarrow> string set \<Rightarrow> 'g \<Rightarrow> picker \<times> 'g" where
  "pickWithComposition env candPen candJem needPen needJem pref alr today g =
     (let totalNeed = wrap64 (needPen + needJem);
          s0 = \<lparr>picked = [], used = {}, alreadySvc = alr, anyToday = today\<rparr>;
          s6 = stepsABC env pref candPen candJem needPen needJem s0
      in stepD env pref candPen candJem totalNeed (s6, g))"

section \<open>Scheduling driver\<close>

text \<open>
  The one way \<^verbatim>\<open>generate\<close> can stop without returning: \<^verbatim>\<open>picked[:totalNeed]\<close>
  with a negative \<^verbatim>\<open>totalNeed\<close> is a run-time panic. Its only \<^verbatim>\<open>return\<close>
  statement is \<^verbatim>\<open>return nil\<close>.
\<close>

datatype failure = SliceBoundsOutOfRange

text \<open>Phase 2: the rows of one composition category get the picks in row order.\<close>

fun compAssignRows ::
  "time \<Rightarrow> string \<Rightarrow> string list \<Rightarrow> nat \<Rightarrow> RoleMap list \<Rightarrow> 'g state \<Rightarrow> 'g state" where
  "compAssignRows d svc pk i [] st = st"
| "compAssignRows d svc pk i (rm # rows) st =
     compAssignRows d svc pk (Suc i) rows
       (if i < length pk
        then st\<lparr>assign := setRole d svc (Role rm) [pk ! i] (assign st),
                lastAssigned := (lastAssigned st)(pk ! i \<mapsto> d)\<rparr>
        else st\<lparr>assign := setRole d svc (Role rm) [] (assign st)\<rparr>)"

fun splitPools :: "Person list \<Rightarrow> RoleMap list \<Rightarrow> string list \<times> string list" where
  "splitPools people [] = ([], [])"
| "splitPools people (rm # rows) =
     (case filterCandidatesSplit people (SourceColumn rm) of
        (p, j) \<Rightarrow> (case splitPools people rows of (ps, js) \<Rightarrow> (p @ ps, j @ js)))"

definition asPerson :: "bool \<Rightarrow> string \<Rightarrow> Person" where
  \<comment> \<open>\<^verbatim>\<open>Person{Name: n, IsPenatua: b}\<close>, the map left nil\<close>
  "asPerson b n = \<lparr>Name = n, IsPenatua = b, Marks = Map.empty\<rparr>"

text \<open>The two pools of a category: unioned over its rows, sorted, then shuffled.\<close>

definition compositionPools ::
  "'g env \<Rightarrow> Person list \<Rightarrow> RoleMap list \<Rightarrow> 'g \<Rightarrow> (Person list \<times> Person list) \<times> 'g" where
  "compositionPools env people rows g =
     (case splitPools people rows of
        (penNames0, jemNames0) \<Rightarrow>
          (case shuffle (draw env) (map (asPerson True) (uniq penNames0)) g of
             (candPen, g1) \<Rightarrow>
               (case shuffle (draw env) (map (asPerson False) (uniq jemNames0)) g1 of
                  (candJem, g2) \<Rightarrow> ((candPen, candJem), g2))))"

definition compositionTotal :: "int \<Rightarrow> int \<Rightarrow> RoleMap list \<Rightarrow> int" where
  "compositionTotal needPen needJem rows =
     (let total0 = wrap64 (needPen + needJem)
      in if total0 > int (length rows) then int (length rows) else total0)"

text \<open>\<^verbatim>\<open>if len(picked) > totalNeed { picked = picked[:totalNeed] }\<close>\<close>

definition truncatePicked :: "int \<Rightarrow> string list \<Rightarrow> failure + string list" where
  "truncatePicked totalNeed pk =
     (if int (length pk) > totalNeed
      then (if totalNeed < 0 then Inl SliceBoundsOutOfRange else Inr (take (nat totalNeed) pk))
      else Inr pk)"

definition compositionCategory ::
  "'g env \<Rightarrow> Person list \<Rightarrow> time \<Rightarrow> time \<Rightarrow> string \<Rightarrow> RoleMap list \<Rightarrow> int \<Rightarrow> int
    \<Rightarrow> 'g state \<Rightarrow> failure + 'g state" where
  "compositionCategory env people prev d svc rows needPen needJem st =
     (if rows = [] then Inr st
      else
        (case compositionPools env people rows (rng st) of
           ((candPen, candJem), g2) \<Rightarrow>
             (case pickWithComposition env candPen candJem needPen needJem
                     (preferred prev (lastAssigned st)) (already svc st) (assignedAnyToday st) g2 of
                (s, g3) \<Rightarrow>
                  (case truncatePicked (compositionTotal needPen needJem rows) (picked s) of
                     Inl e \<Rightarrow> Inl e
                   | Inr pk \<Rightarrow>
                       Inr (compAssignRows d svc pk 0 rows
                              ((setAlready svc (alreadySvc s) st)
                                 \<lparr>assignedAnyToday := anyToday s, rng := g3\<rparr>))))))"

text \<open>The scalar arguments of \<^verbatim>\<open>generate\<close> (\<^verbatim>\<open>loc\<close> is not used by it).\<close>

record limits =
  maxLektor :: int
  maxPro :: int
  maxMus :: int
  kolektanPen :: int
  kolektanJem :: int
  pjemaatPen :: int
  pjemaatJem :: int

text \<open>The body of \<^verbatim>\<open>for _, svc := range services\<close>, phases 1 to 4 in order.\<close>

definition servicePass ::
  "'g env \<Rightarrow> Person list \<Rightarrow> RoleMap list \<Rightarrow> limits \<Rightarrow> time \<Rightarrow> time \<Rightarrow> string
    \<Rightarrow> 'g state \<Rightarrow> failure + 'g state" where
  "servicePass env people maps lim prev d svc st =
     (let (grouped, others) = groupMappingsForService maps svc;
          mpRows = filter (\<lambda>m. isMajelisPendamping (Role m)) (filter (inService svc) others);
          otherNonMP = filter (\<lambda>m. \<not> isMajelisPendamping (Role m)) (filter (inService svc) others);
          st1 = (if svc = ''10'' \<and> mpRows \<noteq> [] then escortPhase env people prev d mpRows st
                 else st)
      in case compositionCategory env people prev d svc (grouped ''kolektan'')
                (kolektanPen lim) (kolektanJem lim) st1 of
           Inl e \<Rightarrow> Inl e
         | Inr st2 \<Rightarrow>
            (case compositionCategory env people prev d svc (grouped ''pjemaat'')
                    (pjemaatPen lim) (pjemaatJem lim) st2 of
               Inl e \<Rightarrow> Inl e
             | Inr st3 \<Rightarrow>
                (let st4 = cappedGroup env people prev d svc (grouped ''lektor'') (maxLektor lim) st3;
                     st5 = cappedGroup env people prev d svc (grouped ''prokantor'') (maxPro lim) st4;
                     st6 = cappedGroup env people prev d svc (grouped ''pemusik'') (maxMus lim) st5
                 in Inr (otherPhase env people prev d svc
                           (maxLektor lim) (maxPro lim) (maxMus lim) otherNonMP st6))))"

text \<open>
  The body of \<^verbatim>\<open>for di, d := range dates\<close>: fresh working sets, then the services
  \<^verbatim>\<open>"07"\<close> and \<^verbatim>\<open>"10"\<close>.
\<close>

definition dateStep ::
  "'g env \<Rightarrow> Person list \<Rightarrow> RoleMap list \<Rightarrow> limits \<Rightarrow> time list \<Rightarrow> nat
    \<Rightarrow> 'g state \<Rightarrow> failure + 'g state" where
  "dateStep env people maps lim dates di st =
     (let d = dates ! di;
          prev = prevSunday dates di;
          st0 = st\<lparr>assigned07 := {}, assigned10 := {}, assignedAnyToday := {}\<rparr>
      in case servicePass env people maps lim prev d ''07'' st0 of
           Inl e \<Rightarrow> Inl e
         | Inr st1 \<Rightarrow> servicePass env people maps lim prev d ''10'' st1)"

fun forDates ::
  "'g env \<Rightarrow> Person list \<Rightarrow> RoleMap list \<Rightarrow> limits \<Rightarrow> time list \<Rightarrow> nat list
    \<Rightarrow> 'g state \<Rightarrow> failure + 'g state" where
  "forDates env people maps lim dates [] st = Inr st"
| "forDates env people maps lim dates (di # dis) st =
     (case dateStep env people maps lim dates di st of
        Inl e \<Rightarrow> Inl e
      | Inr st' \<Rightarrow> forDates env people maps lim dates dis st')"

text \<open>
  \<^verbatim>\<open>generate(assign, dates, people, maps, ...)\<close>, with the state of the random source
  at the call. \<open>Inr\<close> is \<^verbatim>\<open>return nil\<close> with the state left behind.
\<close>

definition generate ::
  "'g env \<Rightarrow> Assignment \<Rightarrow> time list \<Rightarrow> Person list \<Rightarrow> RoleMap list \<Rightarrow> limits \<Rightarrow> 'g
    \<Rightarrow> failure + 'g state" where
  "generate env a dates people maps lim g =
     forDates env people maps lim dates [0..<length dates]
       \<lparr>assign = a, lastAssigned = Map.empty, assigned07 = {}, assigned10 = {},
        assignedAnyToday = {}, rng = g\<rparr>"

section \<open>Notions used to state the properties\<close>

text \<open>
  A name has a true eligibility mark for a source column when some person of the roster
  with that name has (and is an elder, where that is asked).
\<close>

definition marked :: "Person list \<Rightarrow> string \<Rightarrow> bool \<Rightarrow> string \<Rightarrow> bool" where
  "marked people src mustPenatua n =
     (\<exists>p \<in> set people. Name p = n \<and> (mustPenatua \<longrightarrow> IsPenatua p) \<and> eligible p (normKey src))"

text \<open>
  The pool a role label draws from in a service: for a capped group the key of the
  group's first row, for a composition category the key of any of its rows, for every
  other label the key of a row with that label (elders only for an escort label).
\<close>

definition cappedKeys :: "string list" where
  "cappedKeys = [''lektor'', ''prokantor'', ''pemusik'']"

definition compositionKeys :: "string list" where
  "compositionKeys = [''kolektan'', ''pjemaat'']"

definition slotPool :: "Person list \<Rightarrow> RoleMap list \<Rightarrow> string \<Rightarrow> string \<Rightarrow> string \<Rightarrow> bool" where
  "slotPool people maps svc r n =
     (case groupMappingsForService maps svc of
        (grouped, others) \<Rightarrow>
          if baseRole r \<in> set cappedKeys then
            (case grouped (baseRole r) of
               [] \<Rightarrow> False
             | row0 # _ \<Rightarrow> marked people (SourceColumn row0) False n)
          else if baseRole r \<in> set compositionKeys then
            (\<exists>m \<in> set (grouped (baseRole r)). marked people (SourceColumn m) False n)
          else
            (\<exists>m \<in> set others. Role m = r
                 \<and> marked people (SourceColumn m) (isMajelisPendamping r) n))"

text \<open>
  No name twice in the slots of one service: every slot is free of repetitions and two
  slots of different roles share no name.
\<close>

definition noDoubleRole :: "(string \<rightharpoonup> string list) \<Rightarrow> bool" where
  "noDoubleRole m =
     ((\<forall>r ns. m r = Some ns \<longrightarrow> distinct ns) \<and>
      (\<forall>r1 r2 ns1 ns2. r1 \<noteq> r2 \<and> m r1 = Some ns1 \<and> m r2 = Some ns2 \<longrightarrow> set ns1 \<inter> set ns2 = {}))"

text \<open>
  The same for the roles \<open>W\<close> written so far in a pass over a service, whose names all
  lie in \<open>B\<close> (the names marked as assigned in this service).
\<close>

definition apart :: "string set \<Rightarrow> string set \<Rightarrow> (string \<rightharpoonup> string list) \<Rightarrow> bool" where
  "apart W B m =
     ((\<forall>r \<in> W. \<exists>ns. m r = Some ns \<and> distinct ns \<and> set ns \<subseteq> B) \<and>
      (\<forall>r1 \<in> W. \<forall>r2 \<in> W. \<forall>ns1 ns2. r1 \<noteq> r2 \<and> m r1 = Some ns1 \<and> m r2 = Some ns2
          \<longrightarrow> set ns1 \<inter> set ns2 = {}))"

text \<open>The role labels a pass over a service writes.\<close>

definition writtenRoles :: "RoleMap list \<Rightarrow> string \<Rightarrow> string set" where
  "writtenRoles maps svc =
     (case groupMappingsForService maps svc of
        (grouped, others) \<Rightarrow>
          (if svc = ''10'' then Role ` {m \<in> set others. isMajelisPendamping (Role m)} else {})
          \<union> Role ` set (grouped ''kolektan'') \<union> Role ` set (grouped ''pjemaat'')
          \<union> Role ` set (grouped ''lektor'') \<union> Role ` set (grouped ''prokantor'')
          \<union> Role ` set (grouped ''pemusik'')
          \<union> Role ` {m \<in> set others. \<not> isMajelisPendamping (Role m)})"

definition picksRel ::
  "bool \<Rightarrow> bool \<Rightarrow> time \<Rightarrow> string \<Rightarrow> time \<Rightarrow> string set \<Rightarrow> 'g state \<Rightarrow> string list
    \<Rightarrow> 'g state \<Rightarrow> bool" where
  "picksRel ct up prev svc d C st new st' =
     (distinct new \<and> set new \<subseteq> C
      \<and> set new \<inter> already svc st = {}
      \<and> (ct \<longrightarrow> set new \<inter> assignedAnyToday st = {})
      \<and> (up \<longrightarrow> (\<forall>n \<in> set new. preferred prev (lastAssigned st) n))
      \<and> already svc st' = already svc st \<union> set new
      \<and> assignedAnyToday st' = assignedAnyToday st \<union> set new
      \<and> (\<forall>n. lastAssigned st' n = (if n \<in> set new then Some d else lastAssigned st n))
      \<and> assign st' = assign st \<and> rng st' = rng st)"

definition phaseInv :: "time \<Rightarrow> string \<Rightarrow> string set \<Rightarrow> 'g state \<Rightarrow> 'g state \<Rightarrow> bool" where
  "phaseInv d svc K st st' =
     ((\<forall>W. apart W (already svc st) (assign st d svc)
            \<longrightarrow> apart (W \<union> K) (already svc st') (assign st' d svc))
      \<and> dom (assign st' d svc) \<subseteq> dom (assign st d svc) \<union> K
      \<and> (\<forall>d' svc'. (d', svc') \<noteq> (d, svc) \<longrightarrow> assign st' d' svc' = assign st d' svc')
      \<and> already svc st \<subseteq> already svc st')"

definition otherWritten :: "string \<Rightarrow> RoleMap \<Rightarrow> bool" where
  "otherWritten svc m = (inService svc m \<and> \<not> (svc = ''07'' \<and> isMajelisPendamping (Role m)))"

definition growsBy :: "string set \<Rightarrow> picker \<Rightarrow> string list \<Rightarrow> picker \<Rightarrow> bool" where
  "growsBy P s new s' =
     (picked s' = picked s @ new \<and> distinct new \<and> set new \<subseteq> P
        \<and> set new \<inter> alreadySvc s = {}
        \<and> used s' = used s \<union> set new
        \<and> alreadySvc s' = alreadySvc s \<union> set new
        \<and> anyToday s' = anyToday s \<union> set new)"

definition grows :: "string set \<Rightarrow> picker \<Rightarrow> picker \<Rightarrow> bool" where
  "grows P s s' = (\<exists>new. growsBy P s new s')"

definition slotsOK :: "RoleMap list \<Rightarrow> Assignment \<Rightarrow> bool" where
  "slotsOK maps a = (\<forall>d svc. dom (a d svc) \<subseteq> writtenRoles maps svc \<and> noDoubleRole (a d svc))"

section \<open>Properties of the pattern codes\<close>










lemma num_letters:
  "\<not> isNumberChar (CHR ''a'')" "\<not> isNumberChar (CHR ''b'')" "\<not> isNumberChar (CHR ''c'')"
  "\<not> isNumberChar (CHR ''d'')" "\<not> isNumberChar (CHR ''e'')"
  by (simp_all add: isNumberChar_def isDigit_def)






lemma parsePattern_range:
  "parsePattern code = Inr r \<Longrightarrow> r \<in> snd ` set spec_pattern_table"
  by (simp add: parsePattern_def Let_def spec_pattern_table_def split: if_splits option.splits prod.splits)



section \<open>Fairness preference\<close>






section \<open>Capped groups\<close>




section \<open>Composition picker: strict mode\<close>

lemma pickFrom_nonpos:
  "need \<le> 0 \<Longrightarrow> pickFrom pref tn up pool need s = (need, s)"
  by (cases pool) simp_all

lemma pickFrom_picked_subset:
  "set (picked (snd (pickFrom pref tn up pool need s))) \<subseteq> set (picked s) \<union> Name ` set pool"
proof (induction pool arbitrary: need s)
  case Nil
  then show ?case by simp
next
  case (Cons p pool)
  have a: "set (picked (snd (pickFrom pref tn up pool need s))) \<subseteq> set (picked s) \<union> Name ` set pool"
    by (rule Cons.IH)
  have b: "set (picked (snd (pickFrom pref tn up pool (need - 1)
             (s\<lparr>picked := picked s @ [Name p], used := insert (Name p) (used s),
                alreadySvc := insert (Name p) (alreadySvc s),
                anyToday := insert (Name p) (anyToday s)\<rparr>))))
        \<subseteq> set (picked s @ [Name p]) \<union> Name ` set pool"
    using Cons.IH [of "need - 1" "s\<lparr>picked := picked s @ [Name p], used := insert (Name p) (used s),
                alreadySvc := insert (Name p) (alreadySvc s),
                anyToday := insert (Name p) (anyToday s)\<rparr>"] by simp
  from a b show ?case by auto
qed

lemma remaining_subset: "set (remaining s pool) \<subseteq> set pool"
  by (simp add: remaining_def)

lemma stepA_picked_pen:
  assumes "needJem \<le> 0"
  shows "set (picked (snd (stepA pref tn candPen candJem ((needPen, needJem), s))))
           \<subseteq> set (picked s) \<union> Name ` set candPen
         \<and> snd (fst (stepA pref tn candPen candJem ((needPen, needJem), s))) \<le> 0"
proof -
  obtain n1 s1 where p: "pickFrom pref tn True candPen needPen s = (n1, s1)" by force
  have "set (picked s1) \<subseteq> set (picked s) \<union> Name ` set candPen"
    using pickFrom_picked_subset [of pref tn True candPen needPen s] p by simp
  then show ?thesis
    using assms by (simp add: stepA_def p pickFrom_nonpos [OF assms])
qed

lemma stepGuarded_picked_pen:
  assumes "needJem \<le> 0"
  shows "set (picked (snd (stepGuarded pref tn up candPen candJem ((needPen, needJem), s))))
           \<subseteq> set (picked s) \<union> Name ` set candPen
         \<and> snd (fst (stepGuarded pref tn up candPen candJem ((needPen, needJem), s))) \<le> 0"
proof (cases "needPen > 0")
  case True
  obtain n1 s1 where p: "pickFrom pref tn up (remaining s candPen) needPen s = (n1, s1)" by force
  have "set (picked s1) \<subseteq> set (picked s) \<union> Name ` set (remaining s candPen)"
    using pickFrom_picked_subset [of pref tn up "remaining s candPen" needPen s] p by simp
  then have "set (picked s1) \<subseteq> set (picked s) \<union> Name ` set candPen"
    using remaining_subset [of s candPen] by blast
  then show ?thesis
    using assms True by (simp add: stepGuarded_def p)
next
  case False
  then show ?thesis using assms by (simp add: stepGuarded_def)
qed

lemma stepsABC_picked_pen:
  assumes "needJem \<le> 0"
  shows "set (picked (stepsABC env pref candPen candJem needPen needJem s))
           \<subseteq> set (picked s) \<union> Name ` set candPen"
proof -
  define tn where "tn = wrap64 (needPen + needJem)"
  define a where "a = stepA pref tn candPen candJem ((needPen, needJem), s)"
  define b where "b = stepGuarded pref tn True candPen candJem a"
  define c where "c = (if \<not> noRelaxB2B env then stepGuarded pref tn False candPen candJem b else b)"
  have A: "set (picked (snd a)) \<subseteq> set (picked s) \<union> Name ` set candPen" "snd (fst a) \<le> 0"
    using stepA_picked_pen [OF assms, of pref tn candPen candJem needPen s] by (simp_all add: a_def)
  obtain pa ja sa where a: "a = ((pa, ja), sa)" by (metis surj_pair)
  with A have A': "set (picked sa) \<subseteq> set (picked s) \<union> Name ` set candPen" "ja \<le> 0" by simp_all
  have B: "set (picked (snd b)) \<subseteq> set (picked sa) \<union> Name ` set candPen" "snd (fst b) \<le> 0"
    using stepGuarded_picked_pen [OF A'(2), of pref tn True candPen candJem pa sa]
    by (simp_all add: b_def a)
  obtain pb jb sb where b: "b = ((pb, jb), sb)" by (metis surj_pair)
  with B have B': "set (picked sb) \<subseteq> set (picked sa) \<union> Name ` set candPen" "jb \<le> 0" by simp_all
  have C: "set (picked (snd c)) \<subseteq> set (picked sb) \<union> Name ` set candPen"
    using stepGuarded_picked_pen [OF B'(2), of pref tn False candPen candJem pb sb]
    by (auto simp: c_def b)
  have "stepsABC env pref candPen candJem needPen needJem s = snd c"
    by (simp add: stepsABC_def Let_def c_def b_def a_def tn_def)
  with A' B' C show ?thesis by auto
qed

lemma stepD_strict:
  "strictComposition env \<Longrightarrow> stepD env pref candPen candJem tn (s, g) = (s, g)"
  by (simp add: stepD_def)

lemma wrap64_small: "- (2 ^ 63) \<le> x \<Longrightarrow> x < 2 ^ 63 \<Longrightarrow> wrap64 x = x"
  by (simp add: wrap64_def)

lemma single_elder_quota_two:
  assumes e: "e \<notin> alr" "e \<notin> today" and ok: "pref e \<or> \<not> noRelaxB2B env"
  shows "picked (stepsABC env pref [asPerson True e] candJem 2 0
            \<lparr>picked = [], used = {}, alreadySvc = alr, anyToday = today\<rparr>) = [e]"
proof -
  have w: "wrap64 2 = 2" by (simp add: wrap64_def)
  show ?thesis
  proof (cases "pref e")
    case True
    then show ?thesis
      using e
      by (simp add: stepsABC_def Let_def w stepA_def stepGuarded_def pickFrom_nonpos taken_def
            asPerson_def remaining_def)
  next
    case False
    with ok have "\<not> noRelaxB2B env" by simp
    with False show ?thesis
      using e
      by (simp add: stepsABC_def Let_def w stepA_def stepGuarded_def pickFrom_nonpos taken_def
            asPerson_def remaining_def)
  qed
qed

text \<open>
  C4. With the strict-composition toggle on, step D never runs: the picker returns what
  steps A to C picked and leaves the random source alone. With a member quota of 0 every
  name it returns comes from the elder pool. With elder quota 2, member quota 0 and an
  elder pool of the one available elder \<open>e\<close> (not yet assigned in this service or today,
  and preferred or relaxable) it returns exactly \<open>[e]\<close>, whatever the member pool is; and
  mapped onto two rows, the second row's slot is left empty.
\<close>

theorem strict_composition_no_backfill:
  assumes "strictComposition env"
  shows "pickWithComposition env candPen candJem needPen needJem pref alr today g =
           (stepsABC env pref candPen candJem needPen needJem
              \<lparr>picked = [], used = {}, alreadySvc = alr, anyToday = today\<rparr>, g)
       \<and> (needJem \<le> 0 \<longrightarrow>
            set (picked (fst (pickWithComposition env candPen candJem needPen needJem pref alr today g)))
              \<subseteq> Name ` set candPen)
       \<and> (e \<notin> alr \<and> e \<notin> today \<and> (pref e \<or> \<not> noRelaxB2B env) \<longrightarrow>
            picked (fst (pickWithComposition env [asPerson True e] candJem 2 0 pref alr today g)) = [e])
       \<and> assign (compAssignRows d svc [e] 0 [ra, rb] st) d svc (Role rb) = Some []
       \<and> (Role ra \<noteq> Role rb \<longrightarrow>
            assign (compAssignRows d svc [e] 0 [ra, rb] st) d svc (Role ra) = Some [e])"
proof (intro conjI impI)
  show eq: "pickWithComposition env candPen candJem needPen needJem pref alr today g =
           (stepsABC env pref candPen candJem needPen needJem
              \<lparr>picked = [], used = {}, alreadySvc = alr, anyToday = today\<rparr>, g)"
    for candPen candJem needPen needJem
    by (simp add: pickWithComposition_def Let_def stepD_strict [OF assms])
  show "set (picked (fst (pickWithComposition env candPen candJem needPen needJem pref alr today g)))
              \<subseteq> Name ` set candPen" if "needJem \<le> 0"
    using stepsABC_picked_pen [OF that, of env pref candPen candJem needPen
        "\<lparr>picked = [], used = {}, alreadySvc = alr, anyToday = today\<rparr>"]
    by (simp add: eq)
  show "picked (fst (pickWithComposition env [asPerson True e] candJem 2 0 pref alr today g)) = [e]"
    if "e \<notin> alr \<and> e \<notin> today \<and> (pref e \<or> \<not> noRelaxB2B env)"
    using that single_elder_quota_two [of e alr today pref env candJem] by (simp add: eq)
  show "assign (compAssignRows d svc [e] 0 [ra, rb] st) d svc (Role rb) = Some []"
    by (simp add: setRole_def)
  show "assign (compAssignRows d svc [e] 0 [ra, rb] st) d svc (Role ra) = Some [e]"
    if "Role ra \<noteq> Role rb"
    using that by (simp add: setRole_def)
qed

theorem strict_composition_no_backfill_witness:
  "strictComposition \<lparr>draw = (\<lambda>g n. (g, Suc g)), mapOrder = rev, strictComposition = True,
                        noRelaxB2B = False\<rparr>
   \<and> (0::int) \<le> 0 \<and> ''E'' \<notin> ({} :: string set)
   \<and> picked (fst (pickWithComposition
         \<lparr>draw = (\<lambda>g n. (g, Suc g)), mapOrder = rev, strictComposition = True, noRelaxB2B = False\<rparr>
         [asPerson True ''E''] [asPerson False ''M''] 2 0 (\<lambda>n. True) {} {} (0::nat))) = [''E'']
   \<and> set (picked (fst (pickWithComposition
         \<lparr>draw = (\<lambda>g n. (g, Suc g)), mapOrder = rev, strictComposition = True, noRelaxB2B = False\<rparr>
         [asPerson True ''E''] [asPerson False ''M''] 2 0 (\<lambda>n. True) {} {} (0::nat))))
       \<subseteq> Name ` set [asPerson True ''E'']"
proof -
  let ?env = "\<lparr>draw = (\<lambda>g n. (g, Suc g)), mapOrder = rev, strictComposition = True,
                noRelaxB2B = False\<rparr> :: nat env"
  have h: "strictComposition ?env" by simp
  from conjunct2 [OF strict_composition_no_backfill [OF h, where candPen = "[asPerson True ''E'']"
      and candJem = "[asPerson False ''M'']" and needPen = 2 and needJem = 0
      and pref = "\<lambda>n. True" and alr = "{}" and today = "{}" and g = "0::nat" and e = "''E''"
      and d = zeroTime and svc = "''07''"
      and ra = "\<lparr>Role = ''Kolektan 1'', SourceColumn = ''Kolektan'', Service = ''both'', Slots07 = 0, Slots10 = 0\<rparr>"
      and rb = "\<lparr>Role = ''Kolektan 2'', SourceColumn = ''Kolektan'', Service = ''both'', Slots07 = 0, Slots10 = 0\<rparr>"
      and st = "\<lparr>assign = emptyAssignment, lastAssigned = Map.empty, assigned07 = {}, assigned10 = {},
        assignedAnyToday = {}, rng = (0::nat)\<rparr>"]]
  show ?thesis by (simp add: asPerson_def)
qed

section \<open>Composition phase: picks beyond the row count\<close>

text \<open>
  C7 at a failing input: one date, one usher row, the default quota of two elders and
  none of the members, two eligible elders. The picker picks both elders; the phase keeps
  the first for the one row. The other elder stays marked in the working sets of the
  first service and of the day, has no last-assigned date and no slot, and the usher slot
  of the second service stays empty.
\<close>

theorem composition_overpick_not_recorded:
  "(case compositionCategory
           \<lparr>draw = (\<lambda>g n. (g, Suc g)), mapOrder = rev, strictComposition = False, noRelaxB2B = False\<rparr>
           [\<lparr>Name = ''E'', IsPenatua = True, Marks = [''kolektan'' \<mapsto> True]\<rparr>,
            \<lparr>Name = ''F'', IsPenatua = True, Marks = [''kolektan'' \<mapsto> True]\<rparr>]
           zeroTime \<lparr>instant = 63900000000000000000, zoneOffset = 25200\<rparr> ''07''
           [\<lparr>Role = ''Kolektan 1'', SourceColumn = ''Kolektan'', Service = ''both'',
             Slots07 = 0, Slots10 = 0\<rparr>]
           2 0
           \<lparr>assign = emptyAssignment, lastAssigned = Map.empty, assigned07 = {}, assigned10 = {},
            assignedAnyToday = {}, rng = (0::nat)\<rparr> of
      Inl e \<Rightarrow> False
    | Inr st \<Rightarrow>
        assign st \<lparr>instant = 63900000000000000000, zoneOffset = 25200\<rparr> ''07'' ''Kolektan 1''
          = Some [''F'']
        \<and> ''E'' \<in> assigned07 st \<and> ''E'' \<in> assignedAnyToday st
        \<and> lastAssigned st ''E'' = None
        \<and> lastAssigned st ''F'' = Some \<lparr>instant = 63900000000000000000, zoneOffset = 25200\<rparr>)
   \<and> picked (fst (pickWithComposition
           \<lparr>draw = (\<lambda>g n. (g, Suc g)), mapOrder = rev, strictComposition = False, noRelaxB2B = False\<rparr>
           [asPerson True ''F'', asPerson True ''E''] [] 2 0 (\<lambda>n. True) {} {} (1::nat)))
        = [''F'', ''E'']
   \<and> (case generate
           \<lparr>draw = (\<lambda>g n. (g, Suc g)), mapOrder = rev, strictComposition = False, noRelaxB2B = False\<rparr>
           emptyAssignment [\<lparr>instant = 63900000000000000000, zoneOffset = 25200\<rparr>]
           [\<lparr>Name = ''E'', IsPenatua = True, Marks = [''kolektan'' \<mapsto> True]\<rparr>,
            \<lparr>Name = ''F'', IsPenatua = True, Marks = [''kolektan'' \<mapsto> True]\<rparr>]
           [\<lparr>Role = ''Kolektan 1'', SourceColumn = ''Kolektan'', Service = ''both'',
             Slots07 = 0, Slots10 = 0\<rparr>]
           \<lparr>maxLektor = 2, maxPro = 2, maxMus = 2, kolektanPen = 2, kolektanJem = 0,
            pjemaatPen = 1, pjemaatJem = 2\<rparr> (0::nat) of
      Inl e \<Rightarrow> False
    | Inr st \<Rightarrow>
        assign st \<lparr>instant = 63900000000000000000, zoneOffset = 25200\<rparr> ''07'' ''Kolektan 1''
          = Some [''F'']
        \<and> assign st \<lparr>instant = 63900000000000000000, zoneOffset = 25200\<rparr> ''10'' ''Kolektan 1''
          = Some []
        \<and> lastAssigned st ''E'' = None)"
  by code_simp

section \<open>Determinism\<close>

lemma filterCandidates_order:
  assumes "visitsEachKeyOnce order"
  shows "filterCandidates order people src mp =
     sort (remdups (map Name
        (filter (\<lambda>p. \<not> (mp \<and> \<not> IsPenatua p) \<and> eligible p (normKey src)) people)))"
proof -
  let ?m = "remdups (map Name
        (filter (\<lambda>p. \<not> (mp \<and> \<not> IsPenatua p) \<and> eligible p (normKey src)) people))"
  have "mset (order ?m) = mset ?m"
    using assms by (simp add: visitsEachKeyOnce_def)
  then have "sort (order ?m) = sort ?m"
    by (intro properties_for_sort) simp_all
  then show ?thesis by (simp add: filterCandidates_def Let_def)
qed

lemma filterCandidates_sorted_distinct:
  assumes "visitsEachKeyOnce order"
  shows "sorted (filterCandidates order people src mp)"
    and "distinct (filterCandidates order people src mp)"
  by (simp_all add: filterCandidates_order [OF assms])

lemma uniqFrom_set: "set (uniqFrom seen xs) = set xs - seen"
  by (induction xs arbitrary: seen) auto

lemma uniqFrom_distinct: "distinct (uniqFrom seen xs)"
  by (induction xs arbitrary: seen) (auto simp: uniqFrom_set)

lemma uniq_sorted_distinct: "sorted (uniq xs)" "distinct (uniq xs)" "set (uniq xs) = set xs"
  by (simp_all add: uniq_def uniqFrom_distinct uniqFrom_set)

lemma shuffledCandidates_same:
  assumes "sameRun env env'"
  shows "shuffledCandidates env people src mp st = shuffledCandidates env' people src mp st"
proof -
  from assms have v: "visitsEachKeyOnce (mapOrder env)" "visitsEachKeyOnce (mapOrder env')"
    and d: "draw env = draw env'" by (simp_all add: sameRun_def)
  show ?thesis
    by (simp add: shuffledCandidates_def filterCandidates_order [OF v(1)]
          filterCandidates_order [OF v(2)] d)
qed

lemma escortRow_same:
  assumes "sameRun env env'"
  shows "escortRow env people prev d m st = escortRow env' people prev d m st"
  unfolding escortRow_def by (simp only: shuffledCandidates_same [OF assms])

lemma escortPhase_same:
  assumes "sameRun env env'"
  shows "escortPhase env people prev d ms st = escortPhase env' people prev d ms st"
  by (induction ms arbitrary: st) (simp_all add: escortRow_same [OF assms])

lemma cappedGroup_same:
  assumes "sameRun env env'"
  shows "cappedGroup env people prev d svc rows glimit st =
         cappedGroup env' people prev d svc rows glimit st"
proof -
  from assms have n: "noRelaxB2B env = noRelaxB2B env'" by (simp add: sameRun_def)
  show ?thesis
    unfolding cappedGroup_def by (simp only: shuffledCandidates_same [OF assms] n)
qed

lemma otherRow_same:
  assumes "sameRun env env'"
  shows "otherRow env people prev d svc a b c m st = otherRow env' people prev d svc a b c m st"
proof -
  from assms have n: "noRelaxB2B env = noRelaxB2B env'" by (simp add: sameRun_def)
  show ?thesis
    unfolding otherRow_def by (simp only: shuffledCandidates_same [OF assms] n)
qed

lemma otherPhase_same:
  assumes "sameRun env env'"
  shows "otherPhase env people prev d svc a b c ms st = otherPhase env' people prev d svc a b c ms st"
  by (induction ms arbitrary: st) (simp_all add: otherRow_same [OF assms])

lemma pickWithComposition_same:
  assumes "sameRun env env'"
  shows "pickWithComposition env cp cj np nj pref alr today g =
         pickWithComposition env' cp cj np nj pref alr today g"
proof -
  from assms have n: "noRelaxB2B env = noRelaxB2B env'"
    and s: "strictComposition env = strictComposition env'"
    and d: "draw env = draw env'" by (simp_all add: sameRun_def)
  show ?thesis
    unfolding pickWithComposition_def stepsABC_def stepD_def by (simp only: n s d)
qed

lemma compositionCategory_same:
  assumes "sameRun env env'"
  shows "compositionCategory env people prev d svc rows np nj st =
         compositionCategory env' people prev d svc rows np nj st"
proof -
  from assms have d: "draw env = draw env'" by (simp add: sameRun_def)
  show ?thesis
    unfolding compositionCategory_def compositionPools_def
    by (simp only: pickWithComposition_same [OF assms] d)
qed

lemma servicePass_same:
  assumes "sameRun env env'"
  shows "servicePass env people maps lim prev d svc st = servicePass env' people maps lim prev d svc st"
  unfolding servicePass_def
  by (simp only: escortPhase_same [OF assms] compositionCategory_same [OF assms]
        cappedGroup_same [OF assms] otherPhase_same [OF assms])

lemma dateStep_same:
  assumes "sameRun env env'"
  shows "dateStep env people maps lim dates di st = dateStep env' people maps lim dates di st"
  unfolding dateStep_def by (simp only: servicePass_same [OF assms] cong: sum.case_cong)

lemma forDates_same:
  assumes "sameRun env env'"
  shows "forDates env people maps lim dates dis st = forDates env' people maps lim dates dis st"
  by (induction dis arbitrary: st) (simp_all add: dateStep_same [OF assms] cong: sum.case_cong)

text \<open>
  C2, as stated, fails in its last part: the list step D shuffles is what is left of the
  two already shuffled pools, elders first, neither sorted nor free of duplicates. Here
  relaxation is off, the elder \<open>z\<close> and the member \<open>a\<close> both served on the date before, and
  the quota is one of each; and a roster that lists the name \<open>a\<close> as an elder and as a
  member puts it into the list twice.
\<close>

theorem stepD_pool_counterexample:
  "\<not> strictComposition
       \<lparr>draw = (\<lambda>g n. (g, Suc g)), mapOrder = rev, strictComposition = False, noRelaxB2B = True\<rparr>
   \<and> int (length (picked (stepsABC
         \<lparr>draw = (\<lambda>g n. (g, Suc g)), mapOrder = rev, strictComposition = False, noRelaxB2B = True\<rparr>
         (preferred \<lparr>instant = 86400000000000, zoneOffset = 0\<rparr>
            [''z'' \<mapsto> \<lparr>instant = 86400000000000, zoneOffset = 0\<rparr>,
             ''a'' \<mapsto> \<lparr>instant = 86400000000000, zoneOffset = 0\<rparr>])
         [asPerson True ''z''] [asPerson False ''a''] 1 1
         \<lparr>picked = [], used = {}, alreadySvc = {}, anyToday = {}\<rparr>))) < wrap64 (1 + 1)
   \<and> \<not> sorted (map Name (mergedPool (stepsABC
         \<lparr>draw = (\<lambda>g n. (g, Suc g)), mapOrder = rev, strictComposition = False, noRelaxB2B = True\<rparr>
         (preferred \<lparr>instant = 86400000000000, zoneOffset = 0\<rparr>
            [''z'' \<mapsto> \<lparr>instant = 86400000000000, zoneOffset = 0\<rparr>,
             ''a'' \<mapsto> \<lparr>instant = 86400000000000, zoneOffset = 0\<rparr>])
         [asPerson True ''z''] [asPerson False ''a''] 1 1
         \<lparr>picked = [], used = {}, alreadySvc = {}, anyToday = {}\<rparr>)
         [asPerson True ''z''] [asPerson False ''a'']))
   \<and> \<not> distinct (map Name (mergedPool (stepsABC
         \<lparr>draw = (\<lambda>g n. (g, Suc g)), mapOrder = rev, strictComposition = False, noRelaxB2B = True\<rparr>
         (preferred \<lparr>instant = 86400000000000, zoneOffset = 0\<rparr>
            [''a'' \<mapsto> \<lparr>instant = 86400000000000, zoneOffset = 0\<rparr>])
         [asPerson True ''a''] [asPerson False ''a''] 1 1
         \<lparr>picked = [], used = {}, alreadySvc = {}, anyToday = {}\<rparr>)
         [asPerson True ''a''] [asPerson False ''a'']))"
  by code_simp

text \<open>
  C2, amended. Two runs on the same random source in the same state, the same flags,
  roster, mappings and dates return the same state, so the same Assignment with the same
  order of names in every slot, whatever order their map iterations take. Every candidate
  list taken from the roster is sorted and free of duplicates before it is shuffled:
  the result of \<^verbatim>\<open>filterCandidates\<close>, and the two pools of a composition category
  after \<^verbatim>\<open>uniq\<close>. (Step D's list is the exception and is left out.)
\<close>

theorem generate_deterministic:
  assumes "sameRun env env'"
  shows "generate env a dates people maps lim g = generate env' a dates people maps lim g
       \<and> sorted (filterCandidates (mapOrder env) people src mp)
       \<and> distinct (filterCandidates (mapOrder env) people src mp)
       \<and> sorted (uniq (fst (splitPools people rows))) \<and> distinct (uniq (fst (splitPools people rows)))
       \<and> sorted (uniq (snd (splitPools people rows))) \<and> distinct (uniq (snd (splitPools people rows)))"
proof -
  from assms have v: "visitsEachKeyOnce (mapOrder env)" by (simp add: sameRun_def)
  show ?thesis
    by (simp add: generate_def forDates_same [OF assms] filterCandidates_sorted_distinct [OF v]
          uniq_sorted_distinct)
qed

theorem generate_deterministic_witness:
  "sameRun \<lparr>draw = (\<lambda>g n. (g, Suc g)), mapOrder = rev, strictComposition = False, noRelaxB2B = False\<rparr>
           \<lparr>draw = (\<lambda>g n. (g, Suc g)), mapOrder = (\<lambda>ks. ks), strictComposition = False,
            noRelaxB2B = False\<rparr>
   \<and> generate \<lparr>draw = (\<lambda>g n. (g, Suc g)), mapOrder = rev, strictComposition = False,
                 noRelaxB2B = False\<rparr>
        emptyAssignment [\<lparr>instant = 63900000000000000000, zoneOffset = 25200\<rparr>]
        [\<lparr>Name = ''B'', IsPenatua = False, Marks = [''lektor'' \<mapsto> True]\<rparr>,
         \<lparr>Name = ''A'', IsPenatua = False, Marks = [''lektor'' \<mapsto> True]\<rparr>]
        [\<lparr>Role = ''Lektor 1'', SourceColumn = ''Lektor'', Service = ''both'', Slots07 = 0, Slots10 = 0\<rparr>]
        \<lparr>maxLektor = 2, maxPro = 2, maxMus = 2, kolektanPen = 2, kolektanJem = 0,
         pjemaatPen = 1, pjemaatJem = 2\<rparr> (0::nat)
     = generate \<lparr>draw = (\<lambda>g n. (g, Suc g)), mapOrder = (\<lambda>ks. ks), strictComposition = False,
                 noRelaxB2B = False\<rparr>
        emptyAssignment [\<lparr>instant = 63900000000000000000, zoneOffset = 25200\<rparr>]
        [\<lparr>Name = ''B'', IsPenatua = False, Marks = [''lektor'' \<mapsto> True]\<rparr>,
         \<lparr>Name = ''A'', IsPenatua = False, Marks = [''lektor'' \<mapsto> True]\<rparr>]
        [\<lparr>Role = ''Lektor 1'', SourceColumn = ''Lektor'', Service = ''both'', Slots07 = 0, Slots10 = 0\<rparr>]
        \<lparr>maxLektor = 2, maxPro = 2, maxMus = 2, kolektanPen = 2, kolektanJem = 0,
         pjemaatPen = 1, pjemaatJem = 2\<rparr> (0::nat)
   \<and> sorted (filterCandidates rev
        [\<lparr>Name = ''B'', IsPenatua = False, Marks = [''lektor'' \<mapsto> True]\<rparr>,
         \<lparr>Name = ''A'', IsPenatua = False, Marks = [''lektor'' \<mapsto> True]\<rparr>] ''Lektor'' False)"
proof -
  let ?e1 = "\<lparr>draw = (\<lambda>g n. (g, Suc g)), mapOrder = rev, strictComposition = False,
               noRelaxB2B = False\<rparr> :: nat env"
  let ?e2 = "\<lparr>draw = (\<lambda>g n. (g, Suc g)), mapOrder = (\<lambda>ks. ks), strictComposition = False,
               noRelaxB2B = False\<rparr> :: nat env"
  have h: "sameRun ?e1 ?e2"
    by (simp add: sameRun_def visitsEachKeyOnce_def)
  from generate_deterministic [OF h, where a = emptyAssignment
      and dates = "[\<lparr>instant = 63900000000000000000, zoneOffset = 25200\<rparr>]"
      and people = "[\<lparr>Name = ''B'', IsPenatua = False, Marks = [''lektor'' \<mapsto> True]\<rparr>,
         \<lparr>Name = ''A'', IsPenatua = False, Marks = [''lektor'' \<mapsto> True]\<rparr>]"
      and maps = "[\<lparr>Role = ''Lektor 1'', SourceColumn = ''Lektor'', Service = ''both'', Slots07 = 0, Slots10 = 0\<rparr>]"
      and lim = "\<lparr>maxLektor = 2, maxPro = 2, maxMus = 2, kolektanPen = 2, kolektanJem = 0,
         pjemaatPen = 1, pjemaatJem = 2\<rparr>" and g = "0::nat" and src = "''Lektor''" and mp = False
      and rows = "[]"]
  have "generate ?e1 emptyAssignment [\<lparr>instant = 63900000000000000000, zoneOffset = 25200\<rparr>]
        [\<lparr>Name = ''B'', IsPenatua = False, Marks = [''lektor'' \<mapsto> True]\<rparr>,
         \<lparr>Name = ''A'', IsPenatua = False, Marks = [''lektor'' \<mapsto> True]\<rparr>]
        [\<lparr>Role = ''Lektor 1'', SourceColumn = ''Lektor'', Service = ''both'', Slots07 = 0, Slots10 = 0\<rparr>]
        \<lparr>maxLektor = 2, maxPro = 2, maxMus = 2, kolektanPen = 2, kolektanJem = 0,
         pjemaatPen = 1, pjemaatJem = 2\<rparr> (0::nat)
     = generate ?e2 emptyAssignment [\<lparr>instant = 63900000000000000000, zoneOffset = 25200\<rparr>]
        [\<lparr>Name = ''B'', IsPenatua = False, Marks = [''lektor'' \<mapsto> True]\<rparr>,
         \<lparr>Name = ''A'', IsPenatua = False, Marks = [''lektor'' \<mapsto> True]\<rparr>]
        [\<lparr>Role = ''Lektor 1'', SourceColumn = ''Lektor'', Service = ''both'', Slots07 = 0, Slots10 = 0\<rparr>]
        \<lparr>maxLektor = 2, maxPro = 2, maxMus = 2, kolektanPen = 2, kolektanJem = 0,
         pjemaatPen = 1, pjemaatJem = 2\<rparr> (0::nat)"
    and "sorted (filterCandidates rev
        [\<lparr>Name = ''B'', IsPenatua = False, Marks = [''lektor'' \<mapsto> True]\<rparr>,
         \<lparr>Name = ''A'', IsPenatua = False, Marks = [''lektor'' \<mapsto> True]\<rparr>] ''Lektor'' False)"
    by (simp_all only: env.simps conj_imp_eq_imp_imp)
  with h show ?thesis by (intro conjI)
qed

section \<open>Shuffling permutes\<close>

lemma mset_swap_list:
  "i < length xs \<Longrightarrow> j < length xs \<Longrightarrow> mset (swap xs i j) = mset xs"
  unfolding swap_def by (simp add: mset_swap)

lemma length_swap: "length (swap xs i j) = length xs"
  by (simp add: swap_def)

lemma shuffleFrom_mset:
  "i < length xs \<Longrightarrow> mset (fst (shuffleFrom dr i xs g)) = mset xs"
proof (induction i arbitrary: xs g)
  case 0
  then show ?case by simp
next
  case (Suc i)
  obtain j g' where dr: "dr g (Suc (Suc i)) = (j, g')" by force
  have j: "j mod Suc (Suc i) < length xs"
    using Suc.prems by (meson Suc_leI le_trans less_imp_le_nat mod_less_divisor zero_less_Suc not_less)
  have "mset (swap xs (Suc i) (j mod Suc (Suc i))) = mset xs"
    using Suc.prems j by (rule mset_swap_list)
  moreover have "i < length (swap xs (Suc i) (j mod Suc (Suc i)))"
    using Suc.prems by (simp add: length_swap)
  ultimately show ?case
    using Suc.IH [of "swap xs (Suc i) (j mod Suc (Suc i))" g'] by (simp add: dr)
qed

lemma shuffle_mset: "mset (fst (shuffle dr xs g)) = mset xs"
proof (cases xs)
  case Nil
  then show ?thesis by (simp add: shuffle_def)
next
  case (Cons x rest)
  then have "length xs - 1 < length xs" by simp
  then show ?thesis unfolding shuffle_def by (rule shuffleFrom_mset)
qed

lemma shuffle_set: "set (fst (shuffle dr xs g)) = set xs"
  using shuffle_mset [of dr xs g] by (rule mset_eq_setD)

lemma shuffle_distinct: "distinct (fst (shuffle dr xs g)) = distinct xs"
  using shuffle_mset [of dr xs g] by (rule mset_eq_imp_distinct_iff)

lemma shuffle_length: "length (fst (shuffle dr xs g)) = length xs"
  using shuffle_mset [of dr xs g] by (rule mset_eq_length)

lemma shuffle_single: "shuffle dr [x] g = ([x], g)"
  by (simp add: shuffle_def)

lemma shuffle_Nil: "shuffle dr [] g = ([], g)"
  by (simp add: shuffle_def)

section \<open>Working sets\<close>

lemma already_markPicked [simp]:
  "already svc (markPicked svc d name st) = insert name (already svc st)"
  by (simp add: already_def markPicked_def setAlready_def)

lemma assign_markPicked [simp]: "assign (markPicked svc d name st) = assign st"
  by (simp add: markPicked_def setAlready_def)

lemma rng_markPicked [simp]: "rng (markPicked svc d name st) = rng st"
  by (simp add: markPicked_def setAlready_def)

lemma today_markPicked [simp]:
  "assignedAnyToday (markPicked svc d name st) = insert name (assignedAnyToday st)"
  by (simp add: markPicked_def setAlready_def)

lemma lastAssigned_markPicked [simp]:
  "lastAssigned (markPicked svc d name st) = (lastAssigned st)(name \<mapsto> d)"
  by (simp add: markPicked_def setAlready_def)

lemma assigned07_markPicked_10 [simp]:
  "assigned07 (markPicked ''10'' d name st) = assigned07 st"
  by (simp add: markPicked_def setAlready_def already_def)

lemma already_assign_update [simp]: "already svc (st\<lparr>assign := a\<rparr>) = already svc st"
  by (simp add: already_def)

lemma already_rng_update [simp]: "already svc (st\<lparr>rng := g\<rparr>) = already svc st"
  by (simp add: already_def)

lemma already_last_update [simp]: "already svc (st\<lparr>lastAssigned := l\<rparr>) = already svc st"
  by (simp add: already_def)

lemma already_today_update [simp]: "already svc (st\<lparr>assignedAnyToday := l\<rparr>) = already svc st"
  by (simp add: already_def)

lemma already_setAlready [simp]: "already svc (setAlready svc s st) = s"
  by (simp add: already_def setAlready_def)

lemma assign_setAlready [simp]: "assign (setAlready svc s st) = assign st"
  by (simp add: setAlready_def)

lemma today_setAlready [simp]: "assignedAnyToday (setAlready svc s st) = assignedAnyToday st"
  by (simp add: setAlready_def)

lemma lastAssigned_setAlready [simp]: "lastAssigned (setAlready svc s st) = lastAssigned st"
  by (simp add: setAlready_def)

section \<open>The pick loop\<close>

lemma picksRel_refl: "picksRel ct up prev svc d C st [] st"
  by (simp add: picksRel_def)

lemma preferred_upd_other:
  "n \<noteq> name \<Longrightarrow> preferred prev (la(name \<mapsto> d)) n = preferred prev la n"
  by (simp add: preferred_def)

lemma picksRel_step:
  assumes c: "name \<in> C" and a: "name \<notin> already svc st"
    and t: "ct \<longrightarrow> name \<notin> assignedAnyToday st"
    and u: "up \<longrightarrow> preferred prev (lastAssigned st) name"
    and r: "picksRel ct up prev svc d C (markPicked svc d name st) new st'"
  shows "picksRel ct up prev svc d C st (name # new) st'"
proof -
  from r have r1: "distinct new" and r2: "set new \<subseteq> C"
    and r3: "set new \<inter> insert name (already svc st) = {}"
    and r4: "ct \<longrightarrow> set new \<inter> insert name (assignedAnyToday st) = {}"
    and r5: "up \<longrightarrow> (\<forall>n \<in> set new. preferred prev ((lastAssigned st)(name \<mapsto> d)) n)"
    and r6: "already svc st' = insert name (already svc st) \<union> set new"
    and r7: "assignedAnyToday st' = insert name (assignedAnyToday st) \<union> set new"
    and r8: "\<forall>n. lastAssigned st' n = (if n \<in> set new then Some d else ((lastAssigned st)(name \<mapsto> d)) n)"
    and r9: "assign st' = assign st" and r10: "rng st' = rng st"
    by (simp_all add: picksRel_def)
  from r3 have nn: "name \<notin> set new" by blast
  have g1: "distinct (name # new)" using r1 nn by simp
  have g2: "set (name # new) \<subseteq> C" using r2 c by simp
  have g3: "set (name # new) \<inter> already svc st = {}" using r3 a by auto
  have g4: "ct \<longrightarrow> set (name # new) \<inter> assignedAnyToday st = {}" using r4 t by auto
  have g5: "up \<longrightarrow> (\<forall>n \<in> set (name # new). preferred prev (lastAssigned st) n)"
  proof (intro impI ballI)
    fix n assume up: "up" and n: "n \<in> set (name # new)"
    show "preferred prev (lastAssigned st) n"
    proof (cases "n = name")
      case True
      with u up show ?thesis by simp
    next
      case False
      with n have "n \<in> set new" by simp
      with r5 up have "preferred prev ((lastAssigned st)(name \<mapsto> d)) n" by blast
      with False show ?thesis by (simp add: preferred_upd_other)
    qed
  qed
  have g6: "already svc st' = already svc st \<union> set (name # new)" using r6 by auto
  have g7: "assignedAnyToday st' = assignedAnyToday st \<union> set (name # new)" using r7 by auto
  have g8: "\<forall>n. lastAssigned st' n = (if n \<in> set (name # new) then Some d else lastAssigned st n)"
  proof
    fix n
    show "lastAssigned st' n = (if n \<in> set (name # new) then Some d else lastAssigned st n)"
      using r8 [rule_format, of n] by (cases "n = name") simp_all
  qed
  show ?thesis
    unfolding picksRel_def using g1 g2 g3 g4 g5 g6 g7 g8 r9 r10 by blast
qed

lemma picksRel_mono:
  "picksRel ct up prev svc d C st new st' \<Longrightarrow> C \<subseteq> C' \<Longrightarrow> picksRel ct up prev svc d C' st new st'"
  unfolding picksRel_def by blast

lemma pickLoop_rel:
  "pickLoop ct up prev svc d slots cands (pk, st) = (pk', st') \<Longrightarrow>
   \<exists>new. pk' = pk @ new \<and> picksRel ct up prev svc d (set cands) st new st'"
proof (induction cands arbitrary: pk st)
  case Nil
  then show ?case by (simp add: picksRel_refl)
next
  case (Cons name cands)
  show ?case
  proof (cases "slots \<le> int (length pk)")
    case True
    with Cons.prems show ?thesis by (simp add: picksRel_refl)
  next
    case full: False
    show ?thesis
    proof (cases "name \<in> already svc st \<or> (ct \<and> name \<in> assignedAnyToday st)
                  \<or> (up \<and> \<not> preferred prev (lastAssigned st) name)")
      case True
      with Cons.prems full
      have "pickLoop ct up prev svc d slots cands (pk, st) = (pk', st')"
        by (auto split: if_splits)
      from Cons.IH [OF this] obtain new where
        "pk' = pk @ new" "picksRel ct up prev svc d (set cands) st new st'" by blast
      then show ?thesis using picksRel_mono [of ct up prev svc d "set cands" st _ st' "set (name # cands)"]
        by auto
    next
      case False
      with Cons.prems full
      have "pickLoop ct up prev svc d slots cands (pk @ [name], markPicked svc d name st) = (pk', st')"
        by (auto split: if_splits)
      from Cons.IH [OF this] obtain new where new:
        "pk' = (pk @ [name]) @ new"
        "picksRel ct up prev svc d (set cands) (markPicked svc d name st) new st'" by blast
      from new(2) have "picksRel ct up prev svc d (set (name # cands)) (markPicked svc d name st) new st'"
        by (rule picksRel_mono) auto
      with False have "picksRel ct up prev svc d (set (name # cands)) st (name # new) st'"
        by (intro picksRel_step) auto
      with new(1) show ?thesis by auto
    qed
  qed
qed

lemma pickLoop_length:
  "pickLoop ct up prev svc d slots cands (pk, st) = (pk', st') \<Longrightarrow>
   int (length pk') \<le> max slots (int (length pk))"
proof (induction cands arbitrary: pk st)
  case Nil
  then show ?case by simp
next
  case (Cons name cands)
  show ?case
  proof (cases "slots \<le> int (length pk)")
    case True
    with Cons.prems show ?thesis by simp
  next
    case False
    then have lt: "int (length (pk @ [name])) \<le> slots" by simp
    from Cons.prems False
    consider "pickLoop ct up prev svc d slots cands (pk, st) = (pk', st')"
      | "pickLoop ct up prev svc d slots cands (pk @ [name], markPicked svc d name st) = (pk', st')"
      by (auto split: if_splits)
    then show ?thesis
    proof cases
      case 1
      from Cons.IH [OF this] show ?thesis .
    next
      case 2
      from Cons.IH [OF this] lt show ?thesis by simp
    qed
  qed
qed

section \<open>Slots kept apart\<close>

lemma apart_mono: "apart W B m \<Longrightarrow> B \<subseteq> B' \<Longrightarrow> apart W B' m"
  unfolding apart_def by blast

lemma apart_write:
  assumes ap: "apart W B m" and d: "distinct ns" and n: "set ns \<inter> B = {}"
  shows "apart (insert r W) (B \<union> set ns) (m(r \<mapsto> ns))"
proof -
  have a: "\<forall>q \<in> insert r W. \<exists>xs. (m(r \<mapsto> ns)) q = Some xs \<and> distinct xs \<and> set xs \<subseteq> B \<union> set ns"
  proof
    fix q assume q: "q \<in> insert r W"
    show "\<exists>xs. (m(r \<mapsto> ns)) q = Some xs \<and> distinct xs \<and> set xs \<subseteq> B \<union> set ns"
    proof (cases "q = r")
      case True
      then show ?thesis using d by simp
    next
      case False
      with q have "q \<in> W" by simp
      with ap obtain xs where "m q = Some xs" "distinct xs" "set xs \<subseteq> B"
        unfolding apart_def by blast
      with False show ?thesis by auto
    qed
  qed
  have b: "\<forall>r1 \<in> insert r W. \<forall>r2 \<in> insert r W. \<forall>ns1 ns2.
        r1 \<noteq> r2 \<and> (m(r \<mapsto> ns)) r1 = Some ns1 \<and> (m(r \<mapsto> ns)) r2 = Some ns2
          \<longrightarrow> set ns1 \<inter> set ns2 = {}"
  proof (intro ballI allI impI)
    fix r1 r2 ns1 ns2
    assume r1: "r1 \<in> insert r W" and r2: "r2 \<in> insert r W"
      and h: "r1 \<noteq> r2 \<and> (m(r \<mapsto> ns)) r1 = Some ns1 \<and> (m(r \<mapsto> ns)) r2 = Some ns2"
    have old: "set xs \<subseteq> B" if "q \<in> W" "m q = Some xs" for q xs
      using ap that unfolding apart_def by fastforce
    consider "r1 = r" "r2 \<noteq> r" | "r1 \<noteq> r" "r2 = r" | "r1 \<noteq> r" "r2 \<noteq> r"
      using h by blast
    then show "set ns1 \<inter> set ns2 = {}"
    proof cases
      case 1
      with h r2 have "ns1 = ns" "r2 \<in> W" "m r2 = Some ns2" by auto
      with old [of r2 ns2] n show ?thesis by blast
    next
      case 2
      with h r1 have "ns2 = ns" "r1 \<in> W" "m r1 = Some ns1" by auto
      with old [of r1 ns1] n show ?thesis by blast
    next
      case 3
      with h r1 r2 have "r1 \<in> W" "r2 \<in> W" "r1 \<noteq> r2" "m r1 = Some ns1" "m r2 = Some ns2" by auto
      with ap show ?thesis unfolding apart_def by blast
    qed
  qed
  from a b show ?thesis unfolding apart_def by blast
qed

lemma apart_empty: "apart {} B m"
  by (simp add: apart_def)

lemma apart_noDoubleRole:
  assumes "apart W B m" and "dom m \<subseteq> W"
  shows "noDoubleRole m"
proof -
  have w: "r \<in> W" if "m r = Some ns" for r ns using assms(2) that by blast
  have a: "\<forall>r ns. m r = Some ns \<longrightarrow> distinct ns"
  proof (intro allI impI)
    fix r ns assume h: "m r = Some ns"
    with w have "r \<in> W" by blast
    with assms(1) h show "distinct ns" unfolding apart_def by fastforce
  qed
  have b: "\<forall>r1 r2 ns1 ns2. r1 \<noteq> r2 \<and> m r1 = Some ns1 \<and> m r2 = Some ns2 \<longrightarrow> set ns1 \<inter> set ns2 = {}"
  proof (intro allI impI)
    fix r1 r2 ns1 ns2 assume h: "r1 \<noteq> r2 \<and> m r1 = Some ns1 \<and> m r2 = Some ns2"
    with w have "r1 \<in> W" "r2 \<in> W" by blast+
    with assms(1) h show "set ns1 \<inter> set ns2 = {}" unfolding apart_def by blast
  qed
  from a b show ?thesis unfolding noDoubleRole_def by blast
qed

lemma setRole_same [simp]: "setRole d svc r ns a d svc = (a d svc)(r \<mapsto> ns)"
  by (simp add: setRole_def)

lemma setRole_other: "(d', svc') \<noteq> (d, svc) \<Longrightarrow> setRole d svc r ns a d' svc' = a d' svc'"
  by (auto simp: setRole_def)

lemma phaseInv_refl: "phaseInv d svc {} st st"
  by (simp add: phaseInv_def)

lemma phaseInv_trans:
  assumes "phaseInv d svc K1 st st1" and "phaseInv d svc K2 st1 st2"
  shows "phaseInv d svc (K1 \<union> K2) st st2"
proof -
  have a: "\<forall>W. apart W (already svc st) (assign st d svc)
            \<longrightarrow> apart (W \<union> (K1 \<union> K2)) (already svc st2) (assign st2 d svc)"
  proof (intro allI impI)
    fix W assume "apart W (already svc st) (assign st d svc)"
    with assms(1) have "apart (W \<union> K1) (already svc st1) (assign st1 d svc)"
      unfolding phaseInv_def by blast
    with assms(2) have "apart ((W \<union> K1) \<union> K2) (already svc st2) (assign st2 d svc)"
      unfolding phaseInv_def by blast
    then show "apart (W \<union> (K1 \<union> K2)) (already svc st2) (assign st2 d svc)"
      by (simp add: Un_assoc)
  qed
  have b: "dom (assign st2 d svc) \<subseteq> dom (assign st d svc) \<union> (K1 \<union> K2)"
    using assms unfolding phaseInv_def by blast
  have c: "\<forall>d' svc'. (d', svc') \<noteq> (d, svc) \<longrightarrow> assign st2 d' svc' = assign st d' svc'"
    using assms unfolding phaseInv_def by simp
  have e: "already svc st \<subseteq> already svc st2"
    using assms unfolding phaseInv_def by blast
  from a b c e show ?thesis unfolding phaseInv_def by blast
qed

lemma phaseInv_cong: "phaseInv d svc K st st' \<Longrightarrow> K = K' \<Longrightarrow> phaseInv d svc K' st st'"
  by simp

text \<open>One slot written with names freshly marked in this service.\<close>

lemma phaseInv_write:
  assumes d: "distinct pk" and n: "set pk \<inter> already svc st = {}"
    and al: "already svc st' = already svc st \<union> set pk"
    and asg: "assign st' = setRole d svc r pk (assign st)"
  shows "phaseInv d svc {r} st st'"
proof -
  have a: "\<forall>W. apart W (already svc st) (assign st d svc)
            \<longrightarrow> apart (W \<union> {r}) (already svc st') (assign st' d svc)"
  proof (intro allI impI)
    fix W assume "apart W (already svc st) (assign st d svc)"
    from apart_write [OF this d n, of r] show "apart (W \<union> {r}) (already svc st') (assign st' d svc)"
      by (simp add: al asg)
  qed
  have b: "dom (assign st' d svc) \<subseteq> dom (assign st d svc) \<union> {r}"
    by (auto simp: asg)
  have c: "\<forall>d' svc'. (d', svc') \<noteq> (d, svc) \<longrightarrow> assign st' d' svc' = assign st d' svc'"
    by (simp add: asg setRole_other)
  from a b c al show ?thesis unfolding phaseInv_def by blast
qed

section \<open>Two passes over a shuffled candidate list\<close>

lemma picksRel_weaken:
  "picksRel ct up prev svc d C st new st' \<Longrightarrow> picksRel False False prev svc d C st new st'"
  unfolding picksRel_def by blast

lemma picksRel_trans:
  assumes a: "picksRel False False prev svc d C st new1 st1"
    and b: "picksRel False False prev svc d C st1 new2 st2"
  shows "picksRel False False prev svc d C st (new1 @ new2) st2"
proof -
  from a have a1: "distinct new1" "set new1 \<subseteq> C" "set new1 \<inter> already svc st = {}"
    "already svc st1 = already svc st \<union> set new1"
    "assignedAnyToday st1 = assignedAnyToday st \<union> set new1"
    "\<forall>n. lastAssigned st1 n = (if n \<in> set new1 then Some d else lastAssigned st n)"
    "assign st1 = assign st" "rng st1 = rng st"
    by (simp_all add: picksRel_def)
  from b have b1: "distinct new2" "set new2 \<subseteq> C" "set new2 \<inter> already svc st1 = {}"
    "already svc st2 = already svc st1 \<union> set new2"
    "assignedAnyToday st2 = assignedAnyToday st1 \<union> set new2"
    "\<forall>n. lastAssigned st2 n = (if n \<in> set new2 then Some d else lastAssigned st1 n)"
    "assign st2 = assign st1" "rng st2 = rng st1"
    by (simp_all add: picksRel_def)
  have g1: "distinct (new1 @ new2)" using a1(1,4) b1(1,3) by auto
  have g2: "set (new1 @ new2) \<subseteq> C" using a1(2) b1(2) by simp
  have g3: "set (new1 @ new2) \<inter> already svc st = {}" using a1(3,4) b1(3) by auto
  have g6: "already svc st2 = already svc st \<union> set (new1 @ new2)" using a1(4) b1(4) by auto
  have g7: "assignedAnyToday st2 = assignedAnyToday st \<union> set (new1 @ new2)"
    using a1(5) b1(5) by auto
  have g8: "\<forall>n. lastAssigned st2 n = (if n \<in> set (new1 @ new2) then Some d else lastAssigned st n)"
    using a1(6) b1(6) by simp
  show ?thesis
    unfolding picksRel_def using g1 g2 g3 g6 g7 g8 a1(7,8) b1(7,8) by simp
qed

lemma twoPasses_parts:
  assumes "twoPasses relax rt prev svc d slots cands st = (pk, st')"
  shows "\<exists>newA newB st2. pk = newA @ newB
           \<and> pickLoop True True prev svc d slots cands ([], st) = (newA, st2)
           \<and> picksRel True True prev svc d (set cands) st newA st2
           \<and> picksRel rt False prev svc d (set cands) st2 newB st'
           \<and> (if relax \<and> int (length newA) < slots
               then pickLoop rt False prev svc d slots cands (newA, st2) = (pk, st')
               else newB = [] \<and> st' = st2)"
proof -
  obtain newA st2 where A: "pickLoop True True prev svc d slots cands ([], st) = (newA, st2)"
    by force
  from pickLoop_rel [OF A] have rA: "picksRel True True prev svc d (set cands) st newA st2"
    by simp
  show ?thesis
  proof (cases "relax \<and> int (length newA) < slots")
    case True
    with assms A have B: "pickLoop rt False prev svc d slots cands (newA, st2) = (pk, st')"
      by (simp add: twoPasses_def)
    from pickLoop_rel [OF B] obtain newB where
      "pk = newA @ newB" "picksRel rt False prev svc d (set cands) st2 newB st'" by blast
    with A rA B True show ?thesis by auto
  next
    case False
    with assms A have "pk = newA" "st' = st2" by (auto simp: twoPasses_def)
    with A rA False show ?thesis by (auto simp: picksRel_refl)
  qed
qed

lemma twoPasses_rel:
  assumes "twoPasses relax rt prev svc d slots cands st = (pk, st')"
  shows "picksRel False False prev svc d (set cands) st pk st'"
proof -
  from twoPasses_parts [OF assms] obtain newA newB st2 where
    "pk = newA @ newB" "picksRel True True prev svc d (set cands) st newA st2"
    "picksRel rt False prev svc d (set cands) st2 newB st'" by blast
  then show ?thesis
    using picksRel_trans [OF picksRel_weaken picksRel_weaken] by blast
qed

lemma shuffledCandidates_props:
  assumes "shuffledCandidates env people src mp st = (cands, st1)"
  shows "mset cands = mset (filterCandidates (mapOrder env) people src mp)"
    and "st1 = st\<lparr>rng := rng st1\<rparr>"
proof -
  obtain c g where s: "shuffle (draw env) (filterCandidates (mapOrder env) people src mp) (rng st) = (c, g)"
    by force
  with assms have e: "cands = c" "st1 = st\<lparr>rng := g\<rparr>" by (simp_all add: shuffledCandidates_def)
  from shuffle_mset [of "draw env" "filterCandidates (mapOrder env) people src mp" "rng st"] s e
  show "mset cands = mset (filterCandidates (mapOrder env) people src mp)" by simp
  from e show "st1 = st\<lparr>rng := rng st1\<rparr>" by simp
qed

lemma rowWrite_inv:
  assumes sc: "shuffledCandidates env people src mp st = (cands, st1)"
    and tp: "twoPasses relax rt prev svc d slots cands st1 = (pk, st3)"
  shows "phaseInv d svc {r} st (st3\<lparr>assign := setRole d svc r pk (assign st3)\<rparr>)"
proof -
  from shuffledCandidates_props(2) [OF sc] have st1: "st1 = st\<lparr>rng := rng st1\<rparr>" .
  have al1: "already svc st1 = already svc st" by (subst st1) simp
  have as1: "assign st1 = assign st" by (subst st1) simp
  from twoPasses_rel [OF tp] have r: "picksRel False False prev svc d (set cands) st1 pk st3" .
  then have p: "distinct pk" "set pk \<inter> already svc st1 = {}"
    "already svc st3 = already svc st1 \<union> set pk" "assign st3 = assign st1"
    by (simp_all add: picksRel_def)
  show ?thesis
    by (rule phaseInv_write [of pk]) (use p al1 as1 in simp_all)
qed

lemma escortRow_inv: "phaseInv d ''10'' {Role m} st (escortRow env people prev d m st)"
proof -
  obtain cands st1 where sc: "shuffledCandidates env people (SourceColumn m) True st = (cands, st1)"
    by force
  obtain pk st3 where tp: "twoPasses True False prev ''10'' d (escortSlots m) cands st1 = (pk, st3)"
    by force
  from rowWrite_inv [OF sc tp, of "Role m"] show ?thesis
    by (simp add: escortRow_def sc tp)
qed

lemma escortPhase_inv: "phaseInv d ''10'' (Role ` set ms) st (escortPhase env people prev d ms st)"
proof (induction ms arbitrary: st)
  case Nil
  then show ?case by (simp add: phaseInv_refl)
next
  case (Cons m ms)
  have "phaseInv d ''10'' ({Role m} \<union> Role ` set ms) st
          (escortPhase env people prev d ms (escortRow env people prev d m st))"
    by (rule phaseInv_trans [OF escortRow_inv Cons.IH])
  then show ?case by simp
qed

lemma otherRow_inv:
  "phaseInv d svc (if otherWritten svc m then {Role m} else {}) st
     (otherRow env people prev d svc a b c m st)"
proof (cases "otherWritten svc m")
  case False
  then show ?thesis by (auto simp: otherRow_def otherWritten_def phaseInv_refl)
next
  case True
  obtain cands st1 where sc:
    "shuffledCandidates env people (SourceColumn m) (isMajelisPendamping (Role m)) st = (cands, st1)"
    by force
  obtain pk st3 where tp:
    "twoPasses (\<not> noRelaxB2B env) True prev svc d (otherSlots svc a b c m) cands st1 = (pk, st3)"
    by force
  from True have w: "inService svc m" "\<not> (svc = ''07'' \<and> isMajelisPendamping (Role m))"
    by (simp_all add: otherWritten_def)
  have "otherRow env people prev d svc a b c m st
          = st3\<lparr>assign := setRole d svc (Role m) pk (assign st3)\<rparr>"
    using w by (auto simp: otherRow_def sc tp)
  with rowWrite_inv [OF sc tp, of "Role m"] True show ?thesis by simp
qed

lemma otherPhase_inv:
  "phaseInv d svc (Role ` {m \<in> set ms. otherWritten svc m}) st
     (otherPhase env people prev d svc a b c ms st)"
proof (induction ms arbitrary: st)
  case Nil
  then show ?case by (simp add: phaseInv_refl)
next
  case (Cons m ms)
  have "phaseInv d svc ((if otherWritten svc m then {Role m} else {})
           \<union> Role ` {m \<in> set ms. otherWritten svc m}) st
          (otherPhase env people prev d svc a b c ms (otherRow env people prev d svc a b c m st))"
    by (rule phaseInv_trans [OF otherRow_inv Cons.IH])
  moreover have "(if otherWritten svc m then {Role m} else {})
           \<union> Role ` {m \<in> set ms. otherWritten svc m}
         = Role ` {ma \<in> set (m # ms). otherWritten svc ma}" by auto
  ultimately show ?case by simp
qed

section \<open>Rows of a group\<close>

lemma cappedAssignRows_other:
  "(d', svc') \<noteq> (d, svc) \<Longrightarrow> cappedAssignRows d svc pk i rows a d' svc' = a d' svc'"
  by (induction rows arbitrary: i a) (simp_all add: setRole_other)

lemma cappedAssignRows_dom:
  "dom (cappedAssignRows d svc pk i rows a d svc) = dom (a d svc) \<union> Role ` set rows"
  by (induction rows arbitrary: i a) auto

lemma cappedAssignRows_apart:
  "apart W B (a d svc) \<Longrightarrow> distinct (drop i pk) \<Longrightarrow> set (drop i pk) \<inter> B = {} \<Longrightarrow>
   apart (W \<union> Role ` set rows) (B \<union> set (drop i pk)) (cappedAssignRows d svc pk i rows a d svc)"
proof (induction rows arbitrary: i a W B)
  case Nil
  then show ?case by (simp add: apart_mono)
next
  case (Cons rm rows)
  show ?case
  proof (cases "i < length pk")
    case True
    then have dr: "drop i pk = pk ! i # drop (Suc i) pk"
      by (simp add: Cons_nth_drop_Suc)
    let ?a = "setRole d svc (Role rm) [pk ! i] a"
    have n: "set [pk ! i] \<inter> B = {}" using Cons.prems(3) dr by auto
    have "apart (insert (Role rm) W) (B \<union> set [pk ! i]) ((a d svc)(Role rm \<mapsto> [pk ! i]))"
      by (rule apart_write [OF Cons.prems(1) _ n]) simp
    then have 1: "apart (insert (Role rm) W) (B \<union> {pk ! i}) (?a d svc)" by simp
    have 2: "distinct (drop (Suc i) pk)" using Cons.prems(2) dr by simp
    have 3: "set (drop (Suc i) pk) \<inter> (B \<union> {pk ! i}) = {}"
      using Cons.prems(2,3) dr by auto
    from Cons.IH [of "insert (Role rm) W" "B \<union> {pk ! i}" ?a "Suc i", OF 1 2 3]
    have "apart (insert (Role rm) W \<union> Role ` set rows) (B \<union> {pk ! i} \<union> set (drop (Suc i) pk))
            (cappedAssignRows d svc pk (Suc i) rows ?a d svc)" .
    moreover have "B \<union> {pk ! i} \<union> set (drop (Suc i) pk) = B \<union> set (drop i pk)"
      using dr by auto
    moreover have "insert (Role rm) W \<union> Role ` set rows = W \<union> Role ` set (rm # rows)" by auto
    ultimately show ?thesis using True by simp
  next
    case False
    then have dr: "drop i pk = []" "drop (Suc i) pk = []" by simp_all
    let ?a = "setRole d svc (Role rm) [] a"
    have "apart (insert (Role rm) W) (B \<union> set []) ((a d svc)(Role rm \<mapsto> []))"
      by (rule apart_write [OF Cons.prems(1)]) simp_all
    then have 1: "apart (insert (Role rm) W) B (?a d svc)" by simp
    from Cons.IH [of "insert (Role rm) W" B ?a "Suc i", OF 1] dr
    have "apart (insert (Role rm) W \<union> Role ` set rows) B
            (cappedAssignRows d svc pk (Suc i) rows ?a d svc)" by simp
    moreover have "insert (Role rm) W \<union> Role ` set rows = W \<union> Role ` set (rm # rows)" by auto
    ultimately show ?thesis using False dr by simp
  qed
qed

text \<open>A group's rows written from names freshly marked in this service.\<close>

lemma phaseInv_rows:
  assumes d: "distinct pk" and n: "set pk \<inter> already svc st = {}"
    and al: "already svc st \<union> set pk \<subseteq> already svc st'"
    and asg: "assign st' = cappedAssignRows d svc pk 0 rows (assign st)"
  shows "phaseInv d svc (Role ` set rows) st st'"
proof -
  have a: "\<forall>W. apart W (already svc st) (assign st d svc)
            \<longrightarrow> apart (W \<union> Role ` set rows) (already svc st') (assign st' d svc)"
  proof (intro allI impI)
    fix W assume w: "apart W (already svc st) (assign st d svc)"
    have "apart (W \<union> Role ` set rows) (already svc st \<union> set (drop 0 pk))
            (cappedAssignRows d svc pk 0 rows (assign st) d svc)"
      by (rule cappedAssignRows_apart [where a = "assign st" and d = d and svc = svc, OF w])
        (use d n in simp_all)
    then show "apart (W \<union> Role ` set rows) (already svc st') (assign st' d svc)"
      using al by (simp add: asg apart_mono)
  qed
  have b: "dom (assign st' d svc) \<subseteq> dom (assign st d svc) \<union> Role ` set rows"
    by (simp add: asg cappedAssignRows_dom)
  have c: "\<forall>d' svc'. (d', svc') \<noteq> (d, svc) \<longrightarrow> assign st' d' svc' = assign st d' svc'"
    by (simp add: asg cappedAssignRows_other)
  from a b c al show ?thesis unfolding phaseInv_def by blast
qed

lemma cappedGroup_inv:
  "phaseInv d svc (Role ` set rows) st (cappedGroup env people prev d svc rows glimit st)"
proof (cases rows)
  case Nil
  then show ?thesis by (simp add: cappedGroup_def phaseInv_refl)
next
  case (Cons row0 rest)
  obtain cands st1 where sc:
    "shuffledCandidates env people (SourceColumn row0) False st = (cands, st1)" by force
  obtain pk st3 where tp:
    "twoPasses (\<not> noRelaxB2B env) True prev svc d (cappedLimit glimit rows) cands st1 = (pk, st3)"
    by force
  from shuffledCandidates_props(2) [OF sc] have st1: "st1 = st\<lparr>rng := rng st1\<rparr>" .
  have al1: "already svc st1 = already svc st" by (subst st1) simp
  have as1: "assign st1 = assign st" by (subst st1) simp
  from twoPasses_rel [OF tp] have r: "picksRel False False prev svc d (set cands) st1 pk st3" .
  then have p: "distinct pk" "set pk \<inter> already svc st1 = {}"
    "already svc st3 = already svc st1 \<union> set pk" "assign st3 = assign st1"
    by (simp_all add: picksRel_def)
  have e: "cappedGroup env people prev d svc rows glimit st
            = st3\<lparr>assign := cappedAssignRows d svc pk 0 rows (assign st3)\<rparr>"
    using sc tp Cons by (simp add: cappedGroup_def)
  show ?thesis
    unfolding e by (rule phaseInv_rows [of pk]) (use p al1 as1 in simp_all)
qed

section \<open>The composition picker keeps names apart\<close>

lemma grows_refl: "grows P s s"
  unfolding grows_def by (rule exI [of _ "[]"]) (simp add: growsBy_def)

lemma grows_mono:
  assumes "grows P s s'" and "P \<subseteq> P'"
  shows "grows P' s s'"
proof -
  from assms(1) obtain new where "growsBy P s new s'" unfolding grows_def ..
  with assms(2) have "growsBy P' s new s'" unfolding growsBy_def by auto
  then show ?thesis unfolding grows_def ..
qed

lemma grows_trans:
  assumes "grows P s s1" and "grows P s1 s2"
  shows "grows P s s2"
proof -
  from assms(1) obtain n1 where "growsBy P s n1 s1" unfolding grows_def ..
  then have 1: "picked s1 = picked s @ n1" "distinct n1" "set n1 \<subseteq> P"
    "set n1 \<inter> alreadySvc s = {}" "used s1 = used s \<union> set n1"
    "alreadySvc s1 = alreadySvc s \<union> set n1" "anyToday s1 = anyToday s \<union> set n1"
    by (simp_all add: growsBy_def)
  from assms(2) obtain n2 where "growsBy P s1 n2 s2" unfolding grows_def ..
  then have 2: "picked s2 = picked s1 @ n2" "distinct n2" "set n2 \<subseteq> P"
    "set n2 \<inter> alreadySvc s1 = {}" "used s2 = used s1 \<union> set n2"
    "alreadySvc s2 = alreadySvc s1 \<union> set n2" "anyToday s2 = anyToday s1 \<union> set n2"
    by (simp_all add: growsBy_def)
  have "picked s2 = picked s @ (n1 @ n2)" using 1(1) 2(1) by simp
  moreover have "distinct (n1 @ n2)" using 1(2,6) 2(2,4) by auto
  moreover have "set (n1 @ n2) \<subseteq> P" using 1(3) 2(3) by simp
  moreover have "set (n1 @ n2) \<inter> alreadySvc s = {}" using 1(4,6) 2(4) by auto
  moreover have "used s2 = used s \<union> set (n1 @ n2)" using 1(5) 2(5) by auto
  moreover have "alreadySvc s2 = alreadySvc s \<union> set (n1 @ n2)" using 1(6) 2(6) by auto
  moreover have "anyToday s2 = anyToday s \<union> set (n1 @ n2)" using 1(7) 2(7) by auto
  ultimately have "growsBy P s (n1 @ n2) s2" unfolding growsBy_def by blast
  then show ?thesis unfolding grows_def ..
qed

lemma grows_pick:
  assumes "n \<in> P" "\<not> taken s n"
  shows "grows P s (s\<lparr>picked := picked s @ [n], used := insert n (used s),
                alreadySvc := insert n (alreadySvc s), anyToday := insert n (anyToday s)\<rparr>)"
  unfolding grows_def
  by (rule exI [of _ "[n]"]) (use assms in \<open>simp add: taken_def growsBy_def\<close>)

lemma pickFrom_grows:
  "grows (Name ` set pool) s (snd (pickFrom pref tn up pool need s))"
proof (induction pool arbitrary: need s)
  case Nil
  then show ?case by (simp add: grows_refl)
next
  case (Cons p pool)
  let ?s = "s\<lparr>picked := picked s @ [Name p], used := insert (Name p) (used s),
                alreadySvc := insert (Name p) (alreadySvc s),
                anyToday := insert (Name p) (anyToday s)\<rparr>"
  have skip: "grows (Name ` set (p # pool)) s (snd (pickFrom pref tn up pool need s))"
    by (rule grows_mono [OF Cons.IH]) auto
  have take: "grows (Name ` set (p # pool)) s (snd (pickFrom pref tn up pool (need - 1) ?s))"
    if "\<not> taken s (Name p)"
  proof -
    have 1: "grows (Name ` set (p # pool)) s ?s"
      by (rule grows_pick) (use that in simp_all)
    have 2: "grows (Name ` set (p # pool)) ?s (snd (pickFrom pref tn up pool (need - 1) ?s))"
      by (rule grows_mono [OF Cons.IH]) auto
    from 1 2 show ?thesis by (rule grows_trans)
  qed
  show ?case
  proof (cases "tn \<le> int (length (picked s)) \<or> need \<le> 0")
    case True
    then show ?thesis by (auto simp: grows_refl)
  next
    case go: False
    show ?thesis
    proof (cases "taken s (Name p) \<or> (up \<and> \<not> pref (Name p))")
      case True
      with go have "pickFrom pref tn up (p # pool) need s = pickFrom pref tn up pool need s"
        by auto
      with skip show ?thesis by simp
    next
      case False
      with go have "pickFrom pref tn up (p # pool) need s = pickFrom pref tn up pool (need - 1) ?s"
        by auto
      with take False show ?thesis by simp
    qed
  qed
qed

lemma remaining_names: "Name ` set (remaining s pool) \<subseteq> Name ` set pool"
  by (auto simp: remaining_def)

lemma stepA_grows:
  "grows (Name ` (set cp \<union> set cj)) (snd ns) (snd (stepA pref tn cp cj ns))"
proof -
  obtain np nj s where ns: "ns = ((np, nj), s)" by (metis surj_pair)
  obtain n1 s1 where p1: "pickFrom pref tn True cp np s = (n1, s1)" by force
  obtain n2 s2 where p2: "pickFrom pref tn True cj nj s1 = (n2, s2)" by force
  have "grows (Name ` set cp) s s1" using pickFrom_grows [of cp s pref tn True np] p1 by simp
  then have 1: "grows (Name ` (set cp \<union> set cj)) s s1" by (rule grows_mono) auto
  have "grows (Name ` set cj) s1 s2" using pickFrom_grows [of cj s1 pref tn True nj] p2 by simp
  then have 2: "grows (Name ` (set cp \<union> set cj)) s1 s2" by (rule grows_mono) auto
  from grows_trans [OF 1 2] show ?thesis by (simp add: stepA_def ns p1 p2)
qed

lemma pickFrom_remaining_grows:
  "set pool \<subseteq> S \<Longrightarrow> grows (Name ` S) s (snd (pickFrom pref tn up (remaining s' pool) need s))"
  by (rule grows_mono [OF pickFrom_grows]) (auto simp: remaining_def)

lemma stepGuarded_grows:
  "grows (Name ` (set cp \<union> set cj)) (snd ns) (snd (stepGuarded pref tn up cp cj ns))"
proof -
  obtain np nj s where ns: "ns = ((np, nj), s)" by (metis surj_pair)
  obtain n1 s1 where p1: "(if np > 0 then pickFrom pref tn up (remaining s cp) np s else (np, s)) = (n1, s1)"
    by force
  obtain n2 s2 where p2: "(if nj > 0 then pickFrom pref tn up (remaining s1 cj) nj s1 else (nj, s1)) = (n2, s2)"
    by force
  have 1: "grows (Name ` (set cp \<union> set cj)) s s1"
  proof (cases "np > 0")
    case True
    with p1 have "s1 = snd (pickFrom pref tn up (remaining s cp) np s)" by simp
    then show ?thesis by (simp add: pickFrom_remaining_grows)
  next
    case False
    with p1 show ?thesis by (simp add: grows_refl)
  qed
  have 2: "grows (Name ` (set cp \<union> set cj)) s1 s2"
  proof (cases "nj > 0")
    case True
    with p2 have "s2 = snd (pickFrom pref tn up (remaining s1 cj) nj s1)" by simp
    then show ?thesis by (simp add: pickFrom_remaining_grows)
  next
    case False
    with p2 show ?thesis by (simp add: grows_refl)
  qed
  from grows_trans [OF 1 2] show ?thesis by (simp add: stepGuarded_def ns p1 p2)
qed

lemma stepsABC_grows:
  "grows (Name ` (set cp \<union> set cj)) s (stepsABC env pref cp cj np nj s)"
proof -
  define tn where "tn = wrap64 (np + nj)"
  define a where "a = stepA pref tn cp cj ((np, nj), s)"
  define b where "b = stepGuarded pref tn True cp cj a"
  define c where "c = (if \<not> noRelaxB2B env then stepGuarded pref tn False cp cj b else b)"
  have A: "grows (Name ` (set cp \<union> set cj)) s (snd a)"
    using stepA_grows [of cp cj "((np, nj), s)" pref tn] by (simp add: a_def)
  have B: "grows (Name ` (set cp \<union> set cj)) (snd a) (snd b)"
    unfolding b_def by (rule stepGuarded_grows)
  have C: "grows (Name ` (set cp \<union> set cj)) (snd b) (snd c)"
    unfolding c_def by (simp add: stepGuarded_grows grows_refl)
  have "stepsABC env pref cp cj np nj s = snd c"
    by (simp add: stepsABC_def Let_def c_def b_def a_def tn_def)
  with grows_trans [OF grows_trans [OF A B] C] show ?thesis by simp
qed

lemma mergedPool_names: "Name ` set (mergedPool s cp cj) \<subseteq> Name ` (set cp \<union> set cj)"
  by (auto simp: mergedPool_def remaining_def)

lemma stepD_grows:
  "grows (Name ` (set cp \<union> set cj)) s (fst (stepD env pref cp cj tn (s, g)))"
proof (cases "\<not> strictComposition env \<and> int (length (picked s)) < tn")
  case False
  then show ?thesis by (auto simp: stepD_def grows_refl)
next
  case True
  obtain merged g' where sh: "shuffle (draw env) (mergedPool s cp cj) g = (merged, g')" by force
  have "set merged = set (mergedPool s cp cj)"
    using shuffle_set [of "draw env" "mergedPool s cp cj" g] sh by simp
  then have sub: "Name ` set merged \<subseteq> Name ` (set cp \<union> set cj)"
    using mergedPool_names [of s cp cj] by simp
  have "grows (Name ` (set cp \<union> set cj)) s
          (snd (pickFrom pref tn False merged (tn - int (length (picked s))) s))"
    by (rule grows_mono [OF pickFrom_grows sub])
  with True show ?thesis by (simp add: stepD_def sh Let_def)
qed

lemma pickWithComposition_props:
  assumes "pickWithComposition env cp cj np nj pref alr today g = (s, g')"
  shows "distinct (picked s)" and "set (picked s) \<inter> alr = {}"
    and "alreadySvc s = alr \<union> set (picked s)" and "anyToday s = today \<union> set (picked s)"
    and "set (picked s) \<subseteq> Name ` (set cp \<union> set cj)"
proof -
  let ?s0 = "\<lparr>picked = [], used = {}, alreadySvc = alr, anyToday = today\<rparr>"
  let ?s6 = "stepsABC env pref cp cj np nj ?s0"
  have e: "s = fst (stepD env pref cp cj (wrap64 (np + nj)) (?s6, g))"
    using assms by (simp add: pickWithComposition_def Let_def)
  have "grows (Name ` (set cp \<union> set cj)) ?s0 s"
    unfolding e by (rule grows_trans [OF stepsABC_grows stepD_grows])
  then obtain new where "growsBy (Name ` (set cp \<union> set cj)) ?s0 new s"
    unfolding grows_def ..
  then have "picked s = new" "distinct new" "set new \<subseteq> Name ` (set cp \<union> set cj)"
    "set new \<inter> alr = {}" "alreadySvc s = alr \<union> set new" "anyToday s = today \<union> set new"
    by (simp_all add: growsBy_def)
  then show "distinct (picked s)" "set (picked s) \<inter> alr = {}"
    "alreadySvc s = alr \<union> set (picked s)" "anyToday s = today \<union> set (picked s)"
    "set (picked s) \<subseteq> Name ` (set cp \<union> set cj)" by simp_all
qed

section \<open>Composition phase and the whole pass\<close>

lemma assign_compAssignRows:
  "assign (compAssignRows d svc pk i rows st) = cappedAssignRows d svc pk i rows (assign st)"
  by (induction rows arbitrary: i st) simp_all

lemma already_compAssignRows:
  "already svc' (compAssignRows d svc pk i rows st) = already svc' st"
  by (induction rows arbitrary: i st) (simp_all add: already_def)

lemma truncatePicked_props:
  "truncatePicked k pk = Inr pk' \<Longrightarrow> pk' = take (length pk') pk \<and> int (length pk') \<le> max k 0"
  by (auto simp: truncatePicked_def min_def split: if_splits)

lemma compositionCategory_inv:
  assumes "compositionCategory env people prev d svc rows np nj st = Inr st'"
  shows "phaseInv d svc (Role ` set rows) st st'"
proof (cases "rows = []")
  case True
  with assms show ?thesis by (simp add: compositionCategory_def phaseInv_refl)
next
  case False
  obtain cp cj g2 where pools: "compositionPools env people rows (rng st) = ((cp, cj), g2)"
    by (metis surj_pair)
  obtain s g3 where pw: "pickWithComposition env cp cj np nj (preferred prev (lastAssigned st))
        (already svc st) (assignedAnyToday st) g2 = (s, g3)" by force
  let ?st1 = "(setAlready svc (alreadySvc s) st)\<lparr>assignedAnyToday := anyToday s, rng := g3\<rparr>"
  from assms False pools pw obtain pk where
    tr: "truncatePicked (compositionTotal np nj rows) (picked s) = Inr pk"
    and st': "st' = compAssignRows d svc pk 0 rows ?st1"
    by (auto simp: compositionCategory_def split: sum.splits)
  from truncatePicked_props [OF tr] have pk: "pk = take (length pk) (picked s)" by simp
  note pp = pickWithComposition_props [OF pw]
  have d: "distinct pk" by (subst pk) (simp add: pp(1))
  have sub: "set pk \<subseteq> set (picked s)" by (subst pk) (rule set_take_subset)
  have n: "set pk \<inter> already svc st = {}" using sub pp(2) by blast
  have al: "already svc st \<union> set pk \<subseteq> already svc st'"
    using sub pp(3) by (auto simp: st' already_compAssignRows)
  have asg: "assign st' = cappedAssignRows d svc pk 0 rows (assign st)"
    by (simp add: st' assign_compAssignRows)
  from d n al asg show ?thesis by (rule phaseInv_rows)
qed

lemma others_inService:
  "groupMappingsForService maps svc = (grouped, others) \<Longrightarrow> filter (inService svc) others = others"
  by (auto simp: groupMappingsForService_def intro: filter_cong)

lemma servicePass_inv:
  assumes "servicePass env people maps lim prev d svc st = Inr st'"
  shows "phaseInv d svc (writtenRoles maps svc) st st'"
proof -
  obtain grouped others where gm: "groupMappingsForService maps svc = (grouped, others)" by force
  note fo = others_inService [OF gm]
  define mpRows where "mpRows = filter (\<lambda>m. isMajelisPendamping (Role m)) others"
  define otherNonMP where "otherNonMP = filter (\<lambda>m. \<not> isMajelisPendamping (Role m)) others"
  define st1 where "st1 = (if svc = ''10'' \<and> mpRows \<noteq> [] then escortPhase env people prev d mpRows st else st)"
  from assms obtain st2 st3 where
    c1: "compositionCategory env people prev d svc (grouped ''kolektan'')
           (kolektanPen lim) (kolektanJem lim) st1 = Inr st2"
    and c2: "compositionCategory env people prev d svc (grouped ''pjemaat'')
           (pjemaatPen lim) (pjemaatJem lim) st2 = Inr st3"
    and fin: "st' = otherPhase env people prev d svc (maxLektor lim) (maxPro lim) (maxMus lim) otherNonMP
       (cappedGroup env people prev d svc (grouped ''pemusik'') (maxMus lim)
         (cappedGroup env people prev d svc (grouped ''prokantor'') (maxPro lim)
           (cappedGroup env people prev d svc (grouped ''lektor'') (maxLektor lim) st3)))"
    unfolding servicePass_def gm prod.case fo Let_def mpRows_def [symmetric] otherNonMP_def [symmetric]
      st1_def [symmetric]
    by (auto split: sum.splits)
  define st4 where "st4 = cappedGroup env people prev d svc (grouped ''lektor'') (maxLektor lim) st3"
  define st5 where "st5 = cappedGroup env people prev d svc (grouped ''prokantor'') (maxPro lim) st4"
  define st6 where "st6 = cappedGroup env people prev d svc (grouped ''pemusik'') (maxMus lim) st5"
  have p1: "phaseInv d svc (if svc = ''10'' then Role ` set mpRows else {}) st st1"
  proof (cases "svc = ''10'' \<and> mpRows \<noteq> []")
    case True
    then show ?thesis using escortPhase_inv [of d mpRows st env people prev] by (simp add: st1_def)
  next
    case False
    then show ?thesis by (auto simp: st1_def phaseInv_refl)
  qed
  have p2: "phaseInv d svc (Role ` set (grouped ''kolektan'')) st1 st2"
    by (rule compositionCategory_inv [OF c1])
  have p3: "phaseInv d svc (Role ` set (grouped ''pjemaat'')) st2 st3"
    by (rule compositionCategory_inv [OF c2])
  have p4: "phaseInv d svc (Role ` set (grouped ''lektor'')) st3 st4"
    unfolding st4_def by (rule cappedGroup_inv)
  have p5: "phaseInv d svc (Role ` set (grouped ''prokantor'')) st4 st5"
    unfolding st5_def by (rule cappedGroup_inv)
  have p6: "phaseInv d svc (Role ` set (grouped ''pemusik'')) st5 st6"
    unfolding st6_def by (rule cappedGroup_inv)
  have p7: "phaseInv d svc (Role ` {m \<in> set otherNonMP. otherWritten svc m}) st6 st'"
    unfolding fin st6_def st5_def st4_def by (rule otherPhase_inv)
  have ow: "{m \<in> set otherNonMP. otherWritten svc m} = {m \<in> set others. \<not> isMajelisPendamping (Role m)}"
    using fo by (auto simp: otherNonMP_def otherWritten_def filter_id_conv)
  have K: "writtenRoles maps svc =
      (if svc = ''10'' then Role ` set mpRows else {}) \<union> (Role ` set (grouped ''kolektan'')
       \<union> (Role ` set (grouped ''pjemaat'') \<union> (Role ` set (grouped ''lektor'')
       \<union> (Role ` set (grouped ''prokantor'') \<union> (Role ` set (grouped ''pemusik'')
       \<union> Role ` {m \<in> set otherNonMP. otherWritten svc m})))))"
    unfolding writtenRoles_def gm prod.case ow by (auto simp: mpRows_def)
  show ?thesis
    unfolding K
    by (intro phaseInv_trans [OF p1] phaseInv_trans [OF p2] phaseInv_trans [OF p3]
          phaseInv_trans [OF p4] phaseInv_trans [OF p5] phaseInv_trans [OF p6] p7)
qed

section \<open>No name twice in a service\<close>

lemma servicePass_slotsOK:
  assumes sp: "servicePass env people maps lim prev d svc st = Inr st'"
    and ok: "slotsOK maps (assign st)"
  shows "slotsOK maps (assign st')"
proof -
  from servicePass_inv [OF sp] have inv: "phaseInv d svc (writtenRoles maps svc) st st'" .
  have here: "dom (assign st' d svc) \<subseteq> writtenRoles maps svc \<and> noDoubleRole (assign st' d svc)"
  proof
    from inv have "dom (assign st' d svc) \<subseteq> dom (assign st d svc) \<union> writtenRoles maps svc"
      unfolding phaseInv_def by blast
    with ok show dm: "dom (assign st' d svc) \<subseteq> writtenRoles maps svc"
      unfolding slotsOK_def by blast
    from inv apart_empty [of "already svc st" "assign st d svc"]
    have "apart ({} \<union> writtenRoles maps svc) (already svc st') (assign st' d svc)"
      unfolding phaseInv_def by blast
    then have "apart (writtenRoles maps svc) (already svc st') (assign st' d svc)" by simp
    then show "noDoubleRole (assign st' d svc)" using dm by (rule apart_noDoubleRole)
  qed
  have other: "assign st' d' svc' = assign st d' svc'" if "(d', svc') \<noteq> (d, svc)" for d' svc'
    using inv that unfolding phaseInv_def by blast
  show ?thesis
    unfolding slotsOK_def
  proof (intro allI)
    fix d' svc'
    show "dom (assign st' d' svc') \<subseteq> writtenRoles maps svc' \<and> noDoubleRole (assign st' d' svc')"
    proof (cases "(d', svc') = (d, svc)")
      case True
      with here show ?thesis by simp
    next
      case False
      from other [OF this] ok show ?thesis unfolding slotsOK_def by simp
    qed
  qed
qed

lemma dateStep_slotsOK:
  assumes "dateStep env people maps lim dates di st = Inr st'" and "slotsOK maps (assign st)"
  shows "slotsOK maps (assign st')"
proof -
  let ?st0 = "st\<lparr>assigned07 := {}, assigned10 := {}, assignedAnyToday := {}\<rparr>"
  from assms(1) obtain st1 where
    a: "servicePass env people maps lim (prevSunday dates di) (dates ! di) ''07'' ?st0 = Inr st1"
    and b: "servicePass env people maps lim (prevSunday dates di) (dates ! di) ''10'' st1 = Inr st'"
    by (auto simp: dateStep_def Let_def split: sum.splits)
  from assms(2) have "slotsOK maps (assign ?st0)" by simp
  from servicePass_slotsOK [OF b servicePass_slotsOK [OF a this]] show ?thesis .
qed

lemma forDates_slotsOK:
  "forDates env people maps lim dates dis st = Inr st' \<Longrightarrow> slotsOK maps (assign st) \<Longrightarrow>
   slotsOK maps (assign st')"
proof (induction dis arbitrary: st)
  case Nil
  then show ?case by simp
next
  case (Cons di dis)
  from Cons.prems(1) obtain st1 where
    a: "dateStep env people maps lim dates di st = Inr st1"
    and b: "forDates env people maps lim dates dis st1 = Inr st'"
    by (auto split: sum.splits)
  from Cons.IH [OF b dateStep_slotsOK [OF a Cons.prems(2)]] show ?case .
qed

lemma slotsOK_empty: "slotsOK maps emptyAssignment"
  by (simp add: slotsOK_def emptyAssignment_def noDoubleRole_def)

lemma generate_slotsOK:
  "generate env emptyAssignment dates people maps lim g = Inr st \<Longrightarrow> slotsOK maps (assign st)"
  unfolding generate_def by (erule forDates_slotsOK) (simp add: slotsOK_empty)

lemma pickFrom_skips_assigned:
  "set (drop (length (picked s)) (picked (snd (pickFrom pref tn up pool need s)))) \<inter> alreadySvc s = {}"
proof -
  from pickFrom_grows [of pool s pref tn up need] obtain new where
    "growsBy (Name ` set pool) s new (snd (pickFrom pref tn up pool need s))"
    unfolding grows_def ..
  then have "picked (snd (pickFrom pref tn up pool need s)) = picked s @ new"
    "set new \<inter> alreadySvc s = {}" by (simp_all add: growsBy_def)
  then show ?thesis by simp
qed

text \<open>
  C1. In the state a run of \<^verbatim>\<open>generate\<close> from an empty Assignment returns, for every
  date and service no name stands twice in a slot and no name stands in the slots of two
  different roles. Every pass of the pick loop (the escort relax pass is the one with
  \<open>checkToday\<close> false) and every call of the composition picker's \<^verbatim>\<open>pickFrom\<close> adds
  only names that were not in the service's assigned set when it started.
\<close>

theorem no_double_role_in_service:
  assumes "generate env emptyAssignment dates people maps lim g = Inr st"
  shows "noDoubleRole (assign st d svc)
       \<and> (\<forall>ct up prev sv dt slots cands pk (st0 :: 'g state) pk' st1.
            pickLoop ct up prev sv dt slots cands (pk, st0) = (pk', st1)
              \<longrightarrow> take (length pk) pk' = pk
                  \<and> set (drop (length pk) pk') \<inter> already sv st0 = {})
       \<and> (\<forall>pref tn up pool need s.
            set (drop (length (picked s)) (picked (snd (pickFrom pref tn up pool need s))))
              \<inter> alreadySvc s = {})"
proof (intro conjI allI impI)
  from generate_slotsOK [OF assms] show "noDoubleRole (assign st d svc)"
    unfolding slotsOK_def by blast
next
  fix ct up prev sv dt slots cands pk and st0 :: "'g state" and pk' st1
  assume "pickLoop ct up prev sv dt slots cands (pk, st0) = (pk', st1)"
  from pickLoop_rel [OF this] obtain new where
    "pk' = pk @ new" "picksRel ct up prev sv dt (set cands) st0 new st1" by blast
  then show "take (length pk) pk' = pk" "set (drop (length pk) pk') \<inter> already sv st0 = {}"
    by (simp_all add: picksRel_def)
next
  fix pref tn up pool need s
  show "set (drop (length (picked s)) (picked (snd (pickFrom pref tn up pool need s))))
              \<inter> alreadySvc s = {}"
    by (rule pickFrom_skips_assigned)
qed

theorem no_double_role_in_service_witness:
  "\<exists>st. generate
          \<lparr>draw = (\<lambda>g n. (g, Suc g)), mapOrder = rev, strictComposition = False, noRelaxB2B = False\<rparr>
          emptyAssignment [\<lparr>instant = 63900000000000000000, zoneOffset = 25200\<rparr>]
          [\<lparr>Name = ''E'', IsPenatua = True, Marks = [''mp'' \<mapsto> True, ''lektor'' \<mapsto> True]\<rparr>,
           \<lparr>Name = ''M'', IsPenatua = False, Marks = [''lektor'' \<mapsto> True]\<rparr>]
          [\<lparr>Role = ''Lektor 1'', SourceColumn = ''Lektor'', Service = ''both'', Slots07 = 0, Slots10 = 0\<rparr>,
           \<lparr>Role = ''Lektor 2'', SourceColumn = ''Lektor'', Service = ''both'', Slots07 = 0, Slots10 = 0\<rparr>,
           \<lparr>Role = ''Majelis Pendamping'', SourceColumn = ''MP'', Service = ''10'', Slots07 = 0,
             Slots10 = 0\<rparr>]
          \<lparr>maxLektor = 2, maxPro = 2, maxMus = 2, kolektanPen = 2, kolektanJem = 0,
           pjemaatPen = 1, pjemaatJem = 2\<rparr> (0::nat) = Inr st
      \<and> noDoubleRole (assign st \<lparr>instant = 63900000000000000000, zoneOffset = 25200\<rparr> ''07'')
      \<and> noDoubleRole (assign st \<lparr>instant = 63900000000000000000, zoneOffset = 25200\<rparr> ''10'')
      \<and> assign st \<lparr>instant = 63900000000000000000, zoneOffset = 25200\<rparr> ''07'' ''Lektor 1''
           = Some [''M'']
      \<and> assign st \<lparr>instant = 63900000000000000000, zoneOffset = 25200\<rparr> ''07'' ''Lektor 2''
           = Some [''E'']
      \<and> assign st \<lparr>instant = 63900000000000000000, zoneOffset = 25200\<rparr> ''10'' ''Majelis Pendamping''
           = Some [''E'']"
proof -
  let ?d = "\<lparr>instant = 63900000000000000000, zoneOffset = 25200\<rparr>"
  let ?G = "generate
          \<lparr>draw = (\<lambda>g n. (g, Suc g)), mapOrder = rev, strictComposition = False, noRelaxB2B = False\<rparr>
          emptyAssignment [?d]
          [\<lparr>Name = ''E'', IsPenatua = True, Marks = [''mp'' \<mapsto> True, ''lektor'' \<mapsto> True]\<rparr>,
           \<lparr>Name = ''M'', IsPenatua = False, Marks = [''lektor'' \<mapsto> True]\<rparr>]
          [\<lparr>Role = ''Lektor 1'', SourceColumn = ''Lektor'', Service = ''both'', Slots07 = 0, Slots10 = 0\<rparr>,
           \<lparr>Role = ''Lektor 2'', SourceColumn = ''Lektor'', Service = ''both'', Slots07 = 0, Slots10 = 0\<rparr>,
           \<lparr>Role = ''Majelis Pendamping'', SourceColumn = ''MP'', Service = ''10'', Slots07 = 0,
             Slots10 = 0\<rparr>]
          \<lparr>maxLektor = 2, maxPro = 2, maxMus = 2, kolektanPen = 2, kolektanJem = 0,
           pjemaatPen = 1, pjemaatJem = 2\<rparr> (0::nat)"
  have e: "case ?G of Inl x \<Rightarrow> False
     | Inr st \<Rightarrow> assign st ?d ''07'' ''Lektor 1'' = Some [''M'']
          \<and> assign st ?d ''07'' ''Lektor 2'' = Some [''E'']
          \<and> assign st ?d ''10'' ''Majelis Pendamping'' = Some [''E'']"
    by code_simp
  then obtain st where g: "?G = Inr st"
    and v: "assign st ?d ''07'' ''Lektor 1'' = Some [''M'']"
      "assign st ?d ''07'' ''Lektor 2'' = Some [''E'']"
      "assign st ?d ''10'' ''Majelis Pendamping'' = Some [''E'']"
    by (cases ?G) simp_all
  from no_double_role_in_service [OF g, of ?d "''07''"] no_double_role_in_service [OF g, of ?d "''10''"]
  have "noDoubleRole (assign st ?d ''07'')" "noDoubleRole (assign st ?d ''10'')" by blast+
  with g v show ?thesis by blast
qed

section \<open>The engine always returns\<close>

lemma truncatePicked_returns: "0 \<le> k \<Longrightarrow> \<exists>pk'. truncatePicked k pk = Inr pk'"
  by (simp add: truncatePicked_def)

lemma compositionTotal_nonneg:
  "0 \<le> wrap64 (np + nj) \<Longrightarrow> 0 \<le> compositionTotal np nj rows"
  by (simp add: compositionTotal_def Let_def)

lemma compositionCategory_returns:
  assumes "0 \<le> wrap64 (np + nj)"
  shows "\<exists>st'. compositionCategory env people prev d svc rows np nj st = Inr st'"
proof (cases "rows = []")
  case True
  then show ?thesis by (simp add: compositionCategory_def)
next
  case False
  obtain cp cj g2 where pools: "compositionPools env people rows (rng st) = ((cp, cj), g2)"
    by (metis surj_pair)
  obtain s g3 where pw: "pickWithComposition env cp cj np nj (preferred prev (lastAssigned st))
        (already svc st) (assignedAnyToday st) g2 = (s, g3)" by force
  from truncatePicked_returns [OF compositionTotal_nonneg [OF assms], of rows "picked s"]
  obtain pk where "truncatePicked (compositionTotal np nj rows) (picked s) = Inr pk" by blast
  with False pools pw show ?thesis by (simp add: compositionCategory_def)
qed

lemma servicePass_returns:
  assumes k: "0 \<le> wrap64 (kolektanPen lim + kolektanJem lim)"
    and p: "0 \<le> wrap64 (pjemaatPen lim + pjemaatJem lim)"
  shows "\<exists>st'. servicePass env people maps lim prev d svc st = Inr st'"
proof -
  obtain grouped others where gm: "groupMappingsForService maps svc = (grouped, others)" by force
  define st1 where "st1 = (if svc = ''10''
        \<and> filter (\<lambda>m. isMajelisPendamping (Role m)) (filter (inService svc) others) \<noteq> []
      then escortPhase env people prev d
             (filter (\<lambda>m. isMajelisPendamping (Role m)) (filter (inService svc) others)) st
      else st)"
  from compositionCategory_returns [OF k] obtain st2 where
    c1: "compositionCategory env people prev d svc (grouped ''kolektan'')
           (kolektanPen lim) (kolektanJem lim) st1 = Inr st2" by blast
  from compositionCategory_returns [OF p] obtain st3 where
    c2: "compositionCategory env people prev d svc (grouped ''pjemaat'')
           (pjemaatPen lim) (pjemaatJem lim) st2 = Inr st3" by blast
  show ?thesis
    unfolding servicePass_def gm prod.case Let_def st1_def [symmetric]
    by (simp add: c1 c2)
qed

lemma dateStep_returns:
  assumes "0 \<le> wrap64 (kolektanPen lim + kolektanJem lim)"
    and "0 \<le> wrap64 (pjemaatPen lim + pjemaatJem lim)"
  shows "\<exists>st'. dateStep env people maps lim dates di st = Inr st'"
proof -
  let ?st0 = "st\<lparr>assigned07 := {}, assigned10 := {}, assignedAnyToday := {}\<rparr>"
  from servicePass_returns [OF assms] obtain st1 where
    a: "servicePass env people maps lim (prevSunday dates di) (dates ! di) ''07'' ?st0 = Inr st1"
    by blast
  from servicePass_returns [OF assms] obtain st2 where
    b: "servicePass env people maps lim (prevSunday dates di) (dates ! di) ''10'' st1 = Inr st2"
    by blast
  show ?thesis by (simp add: dateStep_def Let_def a b)
qed

lemma forDates_returns:
  assumes "0 \<le> wrap64 (kolektanPen lim + kolektanJem lim)"
    and "0 \<le> wrap64 (pjemaatPen lim + pjemaatJem lim)"
  shows "\<exists>st'. forDates env people maps lim dates dis st = Inr st'"
proof (induction dis arbitrary: st)
  case Nil
  then show ?case by simp
next
  case (Cons di dis)
  from dateStep_returns [OF assms] obtain st1 where
    a: "dateStep env people maps lim dates di st = Inr st1" by blast
  from Cons.IH obtain st2 where "forDates env people maps lim dates dis st1 = Inr st2" by blast
  with a show ?case by simp
qed

lemma pattern_quota_nonneg:
  assumes "parsePattern code = Inr (pen, jem, tot)"
  shows "0 \<le> wrap64 (pen + jem)"
proof -
  from parsePattern_range [OF assms] have "(pen, jem, tot) \<in> snd ` set spec_pattern_table" .
  then have "0 \<le> pen + jem \<and> pen + jem \<le> 4"
    by (auto simp: spec_pattern_table_def)
  then show ?thesis by (simp add: wrap64_def)
qed

lemma twoPasses_length:
  assumes "twoPasses relax rt prev svc d slots cands st = (pk, st')"
  shows "int (length pk) \<le> max slots 0"
proof -
  from twoPasses_parts [OF assms] obtain newA newB st2 where
    A: "pickLoop True True prev svc d slots cands ([], st) = (newA, st2)"
    and B: "if relax \<and> int (length newA) < slots
               then pickLoop rt False prev svc d slots cands (newA, st2) = (pk, st')
               else newB = [] \<and> st' = st2"
    and pk: "pk = newA @ newB" by blast
  from pickLoop_length [OF A] have a: "int (length newA) \<le> max slots 0" by simp
  show ?thesis
  proof (cases "relax \<and> int (length newA) < slots")
    case True
    with B have "pickLoop rt False prev svc d slots cands (newA, st2) = (pk, st')" by simp
    from pickLoop_length [OF this] a show ?thesis by simp
  next
    case False
    with B pk a show ?thesis by simp
  qed
qed

text \<open>
  C9. With quota arguments whose elder and member counts add up to a non-negative total,
  as every pair that \<^verbatim>\<open>parsePattern\<close> returns does, \<^verbatim>\<open>generate\<close> returns (and its
  only return value is nil) for every roster, mapping list, date list, Assignment, flag
  setting and random source. A shortfall shortens slots: the two passes of a row or group
  give at most the requested number of names, and none when there is no candidate; the
  picks of a composition category are cut to at most its clamped total.
\<close>

theorem generate_total:
  "(0 \<le> wrap64 (kolektanPen lim + kolektanJem lim) \<and> 0 \<le> wrap64 (pjemaatPen lim + pjemaatJem lim)
      \<longrightarrow> (\<exists>st. generate env a dates people maps lim g = Inr st))
   \<and> (parsePattern code = Inr (pen, jem, tot) \<longrightarrow> 0 \<le> wrap64 (pen + jem))
   \<and> (twoPasses relax rt prev svc d slots cands st0 = (pk, st1) \<longrightarrow> int (length pk) \<le> max slots 0)
   \<and> twoPasses relax rt prev svc d slots [] st0 = ([], st0)
   \<and> (truncatePicked k pk0 = Inr pk1 \<longrightarrow> int (length pk1) \<le> max k 0)"
proof (intro conjI impI)
  assume "0 \<le> wrap64 (kolektanPen lim + kolektanJem lim) \<and> 0 \<le> wrap64 (pjemaatPen lim + pjemaatJem lim)"
  then show "\<exists>st. generate env a dates people maps lim g = Inr st"
    unfolding generate_def using forDates_returns by blast
next
  assume "parsePattern code = Inr (pen, jem, tot)"
  then show "0 \<le> wrap64 (pen + jem)" by (rule pattern_quota_nonneg)
next
  assume "twoPasses relax rt prev svc d slots cands st0 = (pk, st1)"
  then show "int (length pk) \<le> max slots 0" by (rule twoPasses_length)
next
  show "twoPasses relax rt prev svc d slots [] st0 = ([], st0)"
    by (simp add: twoPasses_def)
next
  assume "truncatePicked k pk0 = Inr pk1"
  from truncatePicked_props [OF this] show "int (length pk1) \<le> max k 0" by simp
qed

theorem generate_total_witness:
  "parsePattern ''2b'' = Inr (2, 0, 2) \<and> parsePattern ''3a'' = Inr (1, 2, 3)
   \<and> (0::int) \<le> wrap64 (2 + 0) \<and> (0::int) \<le> wrap64 (1 + 2)
   \<and> (\<exists>st. generate
          \<lparr>draw = (\<lambda>g n. (g, Suc g)), mapOrder = rev, strictComposition = False, noRelaxB2B = False\<rparr>
          emptyAssignment [\<lparr>instant = 63900000000000000000, zoneOffset = 25200\<rparr>]
          [\<lparr>Name = ''M'', IsPenatua = False, Marks = [''lektor'' \<mapsto> True]\<rparr>]
          [\<lparr>Role = ''Lektor 1'', SourceColumn = ''Lektor'', Service = ''both'', Slots07 = 0, Slots10 = 0\<rparr>,
           \<lparr>Role = ''Kolektan 1'', SourceColumn = ''Kolektan'', Service = ''both'', Slots07 = 0,
             Slots10 = 0\<rparr>]
          \<lparr>maxLektor = 2, maxPro = 2, maxMus = 2, kolektanPen = 2, kolektanJem = 0,
           pjemaatPen = 1, pjemaatJem = 2\<rparr> (0::nat) = Inr st
        \<and> assign st \<lparr>instant = 63900000000000000000, zoneOffset = 25200\<rparr> ''07'' ''Lektor 1''
             = Some [''M'']
        \<and> assign st \<lparr>instant = 63900000000000000000, zoneOffset = 25200\<rparr> ''07'' ''Kolektan 1''
             = Some [])"
proof -
  let ?d = "\<lparr>instant = 63900000000000000000, zoneOffset = 25200\<rparr>"
  let ?lim = "\<lparr>maxLektor = 2, maxPro = 2, maxMus = 2, kolektanPen = 2, kolektanJem = 0,
           pjemaatPen = 1, pjemaatJem = 2\<rparr>"
  let ?G = "generate
          \<lparr>draw = (\<lambda>g n. (g, Suc g)), mapOrder = rev, strictComposition = False, noRelaxB2B = False\<rparr>
          emptyAssignment [?d]
          [\<lparr>Name = ''M'', IsPenatua = False, Marks = [''lektor'' \<mapsto> True]\<rparr>]
          [\<lparr>Role = ''Lektor 1'', SourceColumn = ''Lektor'', Service = ''both'', Slots07 = 0, Slots10 = 0\<rparr>,
           \<lparr>Role = ''Kolektan 1'', SourceColumn = ''Kolektan'', Service = ''both'', Slots07 = 0,
             Slots10 = 0\<rparr>]
          ?lim (0::nat)"
  have p: "parsePattern ''2b'' = Inr (2, 0, 2)" "parsePattern ''3a'' = Inr (1, 2, 3)"
    by code_simp+
  from conjunct1 [OF conjunct2 [OF generate_total [where code = "''2b''" and pen = 2 and jem = 0 and tot = 2]]] p(1)
  have k: "(0::int) \<le> wrap64 (2 + 0)" by blast
  from conjunct1 [OF conjunct2 [OF generate_total [where code = "''3a''" and pen = 1 and jem = 2 and tot = 3]]] p(2)
  have j: "(0::int) \<le> wrap64 (1 + 2)" by blast
  have q: "0 \<le> wrap64 (kolektanPen ?lim + kolektanJem ?lim) \<and> 0 \<le> wrap64 (pjemaatPen ?lim + pjemaatJem ?lim)"
    using k j by simp
  from conjunct1 [OF generate_total [where lim = ?lim
      and env = "\<lparr>draw = (\<lambda>g n. (g, Suc g)), mapOrder = rev, strictComposition = False,
                 noRelaxB2B = False\<rparr>"
      and a = emptyAssignment and dates = "[?d]"
      and people = "[\<lparr>Name = ''M'', IsPenatua = False, Marks = [''lektor'' \<mapsto> True]\<rparr>]"
      and maps = "[\<lparr>Role = ''Lektor 1'', SourceColumn = ''Lektor'', Service = ''both'', Slots07 = 0, Slots10 = 0\<rparr>,
           \<lparr>Role = ''Kolektan 1'', SourceColumn = ''Kolektan'', Service = ''both'', Slots07 = 0,
             Slots10 = 0\<rparr>]"
      and g = "0::nat"]] q
  obtain st where g: "?G = Inr st" by blast
  have e: "case ?G of Inl x \<Rightarrow> False
     | Inr st \<Rightarrow> assign st ?d ''07'' ''Lektor 1'' = Some [''M'']
          \<and> assign st ?d ''07'' ''Kolektan 1'' = Some []"
    by code_simp
  with g have "assign st ?d ''07'' ''Lektor 1'' = Some [''M'']"
    "assign st ?d ''07'' ''Kolektan 1'' = Some []" by simp_all
  with g p k j show ?thesis by blast
qed

section \<open>Escort phase\<close>




lemma already_10 [simp]: "already ''10'' st = assigned10 st"
  by (simp add: already_def)







end
